theory Spec2Isabelle
  imports Main "HOL-Library.While_Combinator" "HOL-Library.Multiset" "HOL-Library.Product_Lexorder"
begin

section \<open>Data model of main.cpp\<close>

text \<open>
  C++ \<open>int\<close> values are modelled as unbounded integers. The program indexes vectors of
  \<open>W * H\<close> cells and fills \<open>dist\<close> with \<open>INT_MAX\<close>; the largest value it computes is a queue
  key of A*, a distance below \<open>W * H\<close> plus a Manhattan distance below \<open>W + H\<close> (a distance
  \<open>INT_MAX\<close> is never added to). The statements about generation assume
  that \<open>W * H\<close> is at most \<open>INT_MAX\<close> and those about the searches that \<open>W * H + W + H\<close> is, so
  that no value leaves the range of \<open>int\<close>. A vector is a list; \<open>v[i]\<close> is \<open>v ! nat i\<close>. Integer
  division and remainder are only applied to non-negative operands, where C++ truncation and
  HOL flooring agree.
\<close>

subsection \<open>Disjoint set (union-find)\<close>

record DisjointSet =
  parent :: "int list"
  sz :: "int list"

text \<open>
  \<open>DisjointSet(int n)\<close>: \<open>parent = 0, 1, ..., n-1\<close> (iota) and \<open>sz\<close> filled with 1. The model
  is of sizes that are not negative, the only ones used below.
\<close>

definition DisjointSet_ctor :: "int \<Rightarrow> DisjointSet" where
  "DisjointSet_ctor n = \<lparr>parent = [0..n - 1], sz = replicate (nat n) 1\<rparr>"

text \<open>
  \<open>findRoot\<close> is recursive and writes \<open>parent[x]\<close> on the way back. It returns the root
  together with the updated structure. \<open>None\<close> stands for a call that yields no result:
  one that reads outside the vector or one that follows a cycle of parents forever.
\<close>

partial_function (option) findRoot :: "DisjointSet \<Rightarrow> int \<Rightarrow> (int \<times> DisjointSet) option" where
  "findRoot ds x =
     (if x < 0 \<or> int (length (parent ds)) \<le> x then None
      else if parent ds ! nat x = x then Some (x, ds)
      else Option.bind (findRoot ds (parent ds ! nat x))
             (\<lambda>(r, ds'). Some (r, ds'\<lparr>parent := (parent ds')[nat x := r]\<rparr>)))"

declare findRoot.simps [code]

text \<open>\<open>unite\<close> returns \<open>void\<close>: its only result is the updated structure.\<close>

definition unite :: "DisjointSet \<Rightarrow> int \<Rightarrow> int \<Rightarrow> DisjointSet option" where
  "unite ds a b =
     Option.bind (findRoot ds a) (\<lambda>(a1, ds1).
     Option.bind (findRoot ds1 b) (\<lambda>(b1, ds2).
       if a1 = b1 then Some ds2
       else
         let (a2, b2) = (if sz ds2 ! nat a1 < sz ds2 ! nat b1 then (b1, a1) else (a1, b1))
         in Some (ds2\<lparr>parent := (parent ds2)[nat b2 := a2],
                      sz := (sz ds2)[nat a2 := sz ds2 ! nat a2 + sz ds2 ! nat b2]\<rparr>)))"

subsection \<open>Maze\<close>

record Maze =
  mazeW :: int
  mazeH :: int
  hasRightWall :: "bool list list"
  hasDownWall :: "bool list list"

text \<open>
  \<open>canMove\<close>, branch by branch. The grids are indexed \<open>[x][y]\<close>.
\<close>

definition canMove :: "Maze \<Rightarrow> int \<Rightarrow> int \<Rightarrow> int \<Rightarrow> bool" where
  "canMove mz x y dir =
     (if dir = 0 then
        (if y = 0 then False else \<not> hasDownWall mz ! nat x ! nat (y - 1))
      else if dir = 1 then
        (if x + 1 \<ge> mazeW mz then False else \<not> hasRightWall mz ! nat x ! nat y)
      else if dir = 2 then
        (if y + 1 \<ge> mazeH mz then False else \<not> hasDownWall mz ! nat x ! nat y)
      else if dir = 3 then
        (if x = 0 then False else \<not> hasRightWall mz ! nat (x - 1) ! nat y)
      else False)"

text \<open>
  The neighbour of a cell in a direction, as every search loop computes it:
  \<open>nx = pu.x + (dir==1) - (dir==3)\<close>, \<open>ny = pu.y + (dir==2) - (dir==0)\<close>.
\<close>

definition nbrX :: "int \<Rightarrow> int \<Rightarrow> int" where
  "nbrX x dir = x + (if dir = 1 then 1 else 0) - (if dir = 3 then 1 else 0)"

definition nbrY :: "int \<Rightarrow> int \<Rightarrow> int" where
  "nbrY y dir = y + (if dir = 2 then 1 else 0) - (if dir = 0 then 1 else 0)"

text \<open>The opposite of a direction code: up(0) and down(2), right(1) and left(3).\<close>

definition opposite :: "int \<Rightarrow> int" where
  "opposite dir = (dir + 2) mod 4"

text \<open>
  The constructor stores the two dimensions and fills both grids with \<open>mazeW\<close> columns of
  \<open>mazeH\<close> entries \<open>true\<close>. It tests nothing. The model is of dimensions that are not
  negative; what a vector does with a negative size is the library's affair and no statement
  below is about it.
\<close>

definition Maze_ctor :: "int \<Rightarrow> int \<Rightarrow> Maze" where
  "Maze_ctor w h =
     \<lparr>mazeW = w, mazeH = h,
      hasRightWall = replicate (nat w) (replicate (nat h) True),
      hasDownWall = replicate (nat w) (replicate (nat h) True)\<rparr>"

subsection \<open>Random generation\<close>

text \<open>An edge is the triple \<open>{x, y, dir}\<close>; \<open>dir\<close> is 1 (right) or 2 (down).\<close>

type_synonym Edge = "int \<times> int \<times> int"

text \<open>The two nested loops that collect the candidate edges, row by row.\<close>

definition candidateEdges :: "int \<Rightarrow> int \<Rightarrow> Edge list" where
  "candidateEdges W H =
     concat (map (\<lambda>y. concat (map (\<lambda>x.
         (if x + 1 < W then [(x, y, 1)] else []) @ (if y + 1 < H then [(x, y, 2)] else []))
       [0..W - 1])) [0..H - 1])"

definition removeWall :: "Maze \<Rightarrow> Edge \<Rightarrow> Maze" where
  "removeWall mz e =
     (case e of (x, y, dir) \<Rightarrow>
        if dir = 1
        then mz\<lparr>hasRightWall := (hasRightWall mz)[nat x := (hasRightWall mz ! nat x)[nat y := False]]\<rparr>
        else mz\<lparr>hasDownWall := (hasDownWall mz)[nat x := (hasDownWall mz ! nat x)[nat y := False]]\<rparr>)"

text \<open>
  One iteration of the loop over the shuffled edges. The two \<open>findRoot\<close> calls of the
  comparison are taken left to right; both orders compress the same two paths.
\<close>

definition kruskalStep :: "Edge \<Rightarrow> Maze \<times> DisjointSet \<Rightarrow> (Maze \<times> DisjointSet) option" where
  "kruskalStep e s =
     (case e of (x, y, dir) \<Rightarrow> case s of (mz, ds) \<Rightarrow>
        let a = y * mazeW mz + x;
            b = (if dir = 1 then a + 1 else a + mazeW mz)
        in Option.bind (findRoot ds a) (\<lambda>(ra, ds1).
           Option.bind (findRoot ds1 b) (\<lambda>(rb, ds2).
             if ra \<noteq> rb
             then Option.bind (unite ds2 a b) (\<lambda>ds3. Some (removeWall mz e, ds3))
             else Some (mz, ds2))))"

fun kruskalLoop :: "Edge list \<Rightarrow> Maze \<times> DisjointSet \<Rightarrow> (Maze \<times> DisjointSet) option" where
  "kruskalLoop [] s = Some s"
| "kruskalLoop (e # es) s = Option.bind (kruskalStep e s) (kruskalLoop es)"

text \<open>
  \<open>generateRandom\<close> takes no argument. It seeds \<open>mt19937\<close> with \<open>(unsigned)time(NULL)\<close> and
  shuffles the edges with \<open>std::shuffle\<close>. Neither the generator nor the library's shuffle
  is part of the program: \<open>shuffle\<close> stands for their composition, a function of the seed and
  of the list, and \<open>now\<close> is the clock reading.
\<close>

definition generateRandom ::
    "(int \<Rightarrow> Edge list \<Rightarrow> Edge list) \<Rightarrow> int \<Rightarrow> Maze \<Rightarrow> Maze option" where
  "generateRandom shuffle now mz =
     (let edges = candidateEdges (mazeW mz) (mazeH mz);
          shuffled = shuffle (now mod 4294967296) edges;
          ds = DisjointSet_ctor (mazeW mz * mazeH mz)
      in map_option fst (kruskalLoop shuffled (mz, ds)))"

text \<open>
  The two statements of \<open>main\<close> that make a maze: construct, then generate. \<open>None\<close> is a
  generation that yields no result (see \<open>findRoot\<close>).
\<close>

definition generateMaze ::
    "(int \<Rightarrow> Edge list \<Rightarrow> Edge list) \<Rightarrow> int \<Rightarrow> int \<Rightarrow> int \<Rightarrow> Maze option" where
  "generateMaze shuffle now w h = generateRandom shuffle now (Maze_ctor w h)"

subsection \<open>Cells\<close>

definition cellId :: "int \<Rightarrow> int \<Rightarrow> int \<Rightarrow> int" where
  "cellId x y W = y * W + x"

definition cellPt :: "int \<Rightarrow> int \<Rightarrow> int \<times> int" where
  "cellPt idx W = (idx mod W, idx div W)"

subsection \<open>The final path\<close>

text \<open>
  \<open>drawFinalPath\<close> walks \<open>v = endCell; v != -1; v = parentOf[v]\<close> and stars each cell. The
  model returns the cells in the order they are starred, goal first. \<open>None\<close> is a walk that
  never meets \<open>-1\<close>.
\<close>

definition drawFinalPath :: "int list \<Rightarrow> int \<Rightarrow> int list option" where
  "drawFinalPath parentOf endCell =
     map_option snd
       (while_option (\<lambda>(v, cells). v \<noteq> - 1)
          (\<lambda>(v, cells). (parentOf ! nat v, cells @ [v])) (endCell, []))"

subsection \<open>Search state\<close>

text \<open>
  Every search keeps \<open>parentOf\<close> and \<open>visitedSet\<close>; \<open>stopped\<close> records that the loop was
  left by its \<open>break\<close>. The two branches of each search (animation skipped or not) run the
  same loop; the animated one calls \<open>drawFrame\<close> in between, which only reads the state.
  The searches index the grids, \<open>parentOf\<close> and \<open>dist\<close> without a check. The model is of
  mazes with positive dimensions whose grids have the declared sizes: there every index the
  loops compute is in range, and the theorems below about the searches are stated for such
  mazes.
\<close>

record Search_state =
  parentOf :: "int list"
  visitedSet :: "int set"
  stopped :: bool

record DFS_state = Search_state +
  stk :: "int list"

record BFS_state = Search_state +
  que :: "int list"

record PQ_state = Search_state +
  dist :: "int list"
  pq :: "(int \<times> int) list"

definition goalCell :: "Maze \<Rightarrow> int" where
  "goalCell mz = cellId (mazeW mz - 1) (mazeH mz - 1) (mazeW mz)"

definition outOfGrid :: "Maze \<Rightarrow> int \<Rightarrow> int \<Rightarrow> bool" where
  "outOfGrid mz nx ny = (nx < 0 \<or> nx \<ge> mazeW mz \<or> ny < 0 \<or> ny \<ge> mazeH mz)"

subsection \<open>DFS\<close>

text \<open>The inner loop over the directions: the first open, unvisited neighbour, or \<open>-1\<close>.\<close>

fun dfsNext :: "Maze \<Rightarrow> int set \<Rightarrow> int \<times> int \<Rightarrow> int list \<Rightarrow> int" where
  "dfsNext mz vis pu [] = - 1"
| "dfsNext mz vis pu (dir # dirs) =
     (let nx = nbrX (fst pu) dir; ny = nbrY (snd pu) dir
      in if outOfGrid mz nx ny then dfsNext mz vis pu dirs
         else let vid = cellId nx ny (mazeW mz)
              in if canMove mz (fst pu) (snd pu) dir \<and> vid \<notin> vis then vid
                 else dfsNext mz vis pu dirs)"

definition dfsBody :: "Maze \<Rightarrow> DFS_state \<Rightarrow> DFS_state" where
  "dfsBody mz s =
     (let u = last (stk s); pu = cellPt u (mazeW mz)
      in if u = goalCell mz then s\<lparr>stopped := True\<rparr>
         else let nextCell = dfsNext mz (visitedSet s) pu [0, 1, 2, 3]
              in if nextCell \<noteq> - 1
                 then s\<lparr>parentOf := (parentOf s)[nat nextCell := u],
                        stk := stk s @ [nextCell],
                        visitedSet := insert nextCell (visitedSet s)\<rparr>
                 else s\<lparr>stk := butlast (stk s)\<rparr>)"

definition dfsInit :: "Maze \<Rightarrow> DFS_state" where
  "dfsInit mz = \<lparr>parentOf = replicate (nat (mazeW mz * mazeH mz)) (- 1),
                 visitedSet = {0}, stopped = False, stk = [0]\<rparr>"

definition dfsLoop :: "Maze \<Rightarrow> DFS_state option" where
  "dfsLoop mz = while_option (\<lambda>s. stk s \<noteq> [] \<and> \<not> stopped s) (dfsBody mz) (dfsInit mz)"

definition runDFS :: "Maze \<Rightarrow> int list option" where
  "runDFS mz = Option.bind (dfsLoop mz) (\<lambda>s. drawFinalPath (parentOf s) (goalCell mz))"

subsection \<open>BFS\<close>

definition bfsVisit :: "Maze \<Rightarrow> int \<Rightarrow> int \<Rightarrow> BFS_state \<Rightarrow> BFS_state" where
  "bfsVisit mz u dir s =
     (let pu = cellPt u (mazeW mz); nx = nbrX (fst pu) dir; ny = nbrY (snd pu) dir
      in if outOfGrid mz nx ny then s
         else let vid = cellId nx ny (mazeW mz)
              in if canMove mz (fst pu) (snd pu) dir \<and> vid \<notin> visitedSet s
                 then s\<lparr>visitedSet := insert vid (visitedSet s),
                        parentOf := (parentOf s)[nat vid := u],
                        que := que s @ [vid]\<rparr>
                 else s)"

definition bfsBody :: "Maze \<Rightarrow> BFS_state \<Rightarrow> BFS_state" where
  "bfsBody mz s =
     (let u = hd (que s); s1 = s\<lparr>que := tl (que s)\<rparr>
      in if u = goalCell mz then s1\<lparr>stopped := True\<rparr>
         else fold (bfsVisit mz u) [0, 1, 2, 3] s1)"

definition bfsInit :: "Maze \<Rightarrow> BFS_state" where
  "bfsInit mz = \<lparr>parentOf = replicate (nat (mazeW mz * mazeH mz)) (- 1),
                 visitedSet = {0}, stopped = False, que = [0]\<rparr>"

definition bfsLoop :: "Maze \<Rightarrow> BFS_state option" where
  "bfsLoop mz = while_option (\<lambda>s. que s \<noteq> [] \<and> \<not> stopped s) (bfsBody mz) (bfsInit mz)"

definition runBFS :: "Maze \<Rightarrow> int list option" where
  "runBFS mz = Option.bind (bfsLoop mz) (\<lambda>s. drawFinalPath (parentOf s) (goalCell mz))"

subsection \<open>Dijkstra and A*\<close>

definition INT_MAX :: int where
  "INT_MAX = 2147483647"

text \<open>
  The queue is a \<open>priority_queue\<close> of pairs \<open>(key, cell)\<close> under \<open>greater\<close>: its top is the
  least pair in the lexicographic order of pairs. It is modelled by the list of its
  entries; \<open>pop\<close> removes one occurrence of the top.
\<close>

definition pqTop :: "(int \<times> int) list \<Rightarrow> int \<times> int" where
  "pqTop q = Min (set q)"

definition pqPop :: "(int \<times> int) list \<Rightarrow> (int \<times> int) list" where
  "pqPop q = remove1 (pqTop q) q"

definition pqRelax :: "Maze \<Rightarrow> (int \<Rightarrow> int) \<Rightarrow> int \<Rightarrow> int \<Rightarrow> PQ_state \<Rightarrow> PQ_state" where
  "pqRelax mz h u dir s =
     (let pu = cellPt u (mazeW mz); nx = nbrX (fst pu) dir; ny = nbrY (snd pu) dir
      in if outOfGrid mz nx ny then s
         else let vid = cellId nx ny (mazeW mz)
              in if canMove mz (fst pu) (snd pu) dir
                 then let alt = dist s ! nat u + 1
                      in if alt < dist s ! nat vid
                         then s\<lparr>dist := (dist s)[nat vid := alt],
                                parentOf := (parentOf s)[nat vid := u],
                                pq := pq s @ [(alt + h vid, vid)]\<rparr>
                         else s
                 else s)"

text \<open>
  With the animation skipped the goal test comes before the insertion into \<open>visitedSet\<close>;
  in the animated branch it comes after. Nothing else differs.
\<close>

definition pqBody :: "Maze \<Rightarrow> (int \<Rightarrow> int) \<Rightarrow> bool \<Rightarrow> PQ_state \<Rightarrow> PQ_state" where
  "pqBody mz h skipAnimation s =
     (let u = snd (pqTop (pq s)); s1 = s\<lparr>pq := pqPop (pq s)\<rparr>;
          s2 = s1\<lparr>visitedSet := insert u (visitedSet s1)\<rparr>
      in if skipAnimation
         then (if u = goalCell mz then s1\<lparr>stopped := True\<rparr>
               else fold (pqRelax mz h u) [0, 1, 2, 3] s2)
         else (if u = goalCell mz then s2\<lparr>stopped := True\<rparr>
               else fold (pqRelax mz h u) [0, 1, 2, 3] s2))"

definition pqInit :: "Maze \<Rightarrow> (int \<Rightarrow> int) \<Rightarrow> PQ_state" where
  "pqInit mz h = \<lparr>parentOf = replicate (nat (mazeW mz * mazeH mz)) (- 1),
                  visitedSet = {0}, stopped = False,
                  dist = (replicate (nat (mazeW mz * mazeH mz)) INT_MAX)[0 := 0],
                  pq = [(h 0, 0)]\<rparr>"

definition pqLoop :: "Maze \<Rightarrow> (int \<Rightarrow> int) \<Rightarrow> bool \<Rightarrow> PQ_state option" where
  "pqLoop mz h skipAnimation =
     while_option (\<lambda>s. pq s \<noteq> [] \<and> \<not> stopped s) (pqBody mz h skipAnimation) (pqInit mz h)"

definition runPQ :: "Maze \<Rightarrow> (int \<Rightarrow> int) \<Rightarrow> bool \<Rightarrow> int list option" where
  "runPQ mz h skipAnimation =
     Option.bind (pqLoop mz h skipAnimation) (\<lambda>s. drawFinalPath (parentOf s) (goalCell mz))"

text \<open>The two heuristics \<open>main\<close> passes: \<open>zeroH\<close> for Dijkstra, \<open>manH\<close> for A*.\<close>

definition zeroH :: "int \<Rightarrow> int" where
  "zeroH v = 0"

definition manH :: "int \<Rightarrow> int \<Rightarrow> int \<Rightarrow> int" where
  "manH mazeWidth mazeHeight v =
     (let p = cellPt v mazeWidth
      in \<bar>fst p - (mazeWidth - 1)\<bar> + \<bar>snd p - (mazeHeight - 1)\<bar>)"

definition runDijkstra :: "Maze \<Rightarrow> bool \<Rightarrow> int list option" where
  "runDijkstra mz skipAnimation = runPQ mz zeroH skipAnimation"

definition runAStar :: "Maze \<Rightarrow> bool \<Rightarrow> int list option" where
  "runAStar mz skipAnimation = runPQ mz (manH (mazeW mz) (mazeH mz)) skipAnimation"

subsection \<open>A shuffle to run examples with\<close>

text \<open>
  Any function from a seed and a list to a permutation of the list can stand for the
  library's shuffle. This one keeps the list on an even seed and reverses it on an odd one.
\<close>

definition exampleShuffle :: "int \<Rightarrow> Edge list \<Rightarrow> Edge list" where
  "exampleShuffle seed es = (if even seed then es else rev es)"

text \<open>
  A maze to run examples on: two cells side by side, every wall standing, so that the goal
  cell 1 cannot be reached from the start cell 0.
\<close>

definition closedMaze :: Maze where
  "closedMaze = \<lparr>mazeW = 2, mazeH = 1,
                  hasRightWall = [[True], [True]], hasDownWall = [[True], [True]]\<rparr>"

section \<open>Vocabulary of the properties\<close>

subsection \<open>Union-find forests\<close>

text \<open>
  \<open>walk l x p r\<close>: following the parent links of \<open>l\<close> from \<open>x\<close> reaches the root \<open>r\<close>, and \<open>p\<close>
  lists the nodes met on the way, \<open>x\<close> first and \<open>r\<close> last. \<open>rep l x r\<close> forgets the path: \<open>r\<close> is
  the representative of \<open>x\<close>. \<open>compress l p r\<close> re-parents every node of \<open>p\<close> to \<open>r\<close>.
  A forest is well formed (\<open>uf_inv\<close>) when every index has a representative; \<open>comp l r\<close> is the
  component of a root, and \<open>sz_ok\<close> says that \<open>sz\<close> holds, at every root, the size of its
  component.
\<close>

inductive walk :: "int list \<Rightarrow> int \<Rightarrow> int list \<Rightarrow> int \<Rightarrow> bool" for l where
  walk_root: "0 \<le> x \<Longrightarrow> x < int (length l) \<Longrightarrow> l ! nat x = x \<Longrightarrow> walk l x [x] x"
| walk_step: "0 \<le> x \<Longrightarrow> x < int (length l) \<Longrightarrow> l ! nat x \<noteq> x \<Longrightarrow> walk l (l ! nat x) p r
              \<Longrightarrow> walk l x (x # p) r"

definition rep :: "int list \<Rightarrow> int \<Rightarrow> int \<Rightarrow> bool" where
  "rep l x r = (\<exists>p. walk l x p r)"

definition compress :: "int list \<Rightarrow> int list \<Rightarrow> int \<Rightarrow> int list" where
  "compress l p r = foldr (\<lambda>y l'. l'[nat y := r]) p l"

definition uf_inv :: "int list \<Rightarrow> bool" where
  "uf_inv l = (\<forall>x. 0 \<le> x \<and> x < int (length l) \<longrightarrow> (\<exists>r. rep l x r))"

definition comp :: "int list \<Rightarrow> int \<Rightarrow> int set" where
  "comp l r = {y. rep l y r}"

definition sz_ok :: "DisjointSet \<Rightarrow> bool" where
  "sz_ok ds = (\<forall>r. rep (parent ds) r r \<longrightarrow> sz ds ! nat r = int (card (comp (parent ds) r)))"

definition uf_wf :: "DisjointSet \<Rightarrow> bool" where
  "uf_wf ds = (uf_inv (parent ds) \<and> length (sz ds) = length (parent ds) \<and> sz_ok ds)"

subsection \<open>Cells, adjacency and paths\<close>

text \<open>
  \<open>wfMaze\<close>: both grids have \<open>mazeW\<close> columns of \<open>mazeH\<close> entries, as the constructor builds
  them. \<open>isCell\<close>: an index of the \<open>mazeW * mazeH\<close> cells. \<open>adjacent mz u v\<close>: one of the four
  directions leads from cell \<open>u\<close> to the in-grid cell \<open>v\<close> and \<open>canMove\<close> allows it; this is the
  test every search loop applies to a neighbour. \<open>simplePath mz a b p\<close>: \<open>p\<close> lists cells from
  \<open>a\<close> to \<open>b\<close>, each adjacent to the next, none twice. \<open>connectedMaze\<close>: every cell can be
  reached from the start cell 0. \<open>acyclicMaze\<close>: no three or more distinct cells form a cycle.
\<close>

definition wfMaze :: "Maze \<Rightarrow> bool" where
  "wfMaze mz =
     (length (hasRightWall mz) = nat (mazeW mz)
      \<and> (\<forall>col \<in> set (hasRightWall mz). length col = nat (mazeH mz))
      \<and> length (hasDownWall mz) = nat (mazeW mz)
      \<and> (\<forall>col \<in> set (hasDownWall mz). length col = nat (mazeH mz)))"

definition isCell :: "Maze \<Rightarrow> int \<Rightarrow> bool" where
  "isCell mz u = (0 \<le> u \<and> u < mazeW mz * mazeH mz)"

definition adjacent :: "Maze \<Rightarrow> int \<Rightarrow> int \<Rightarrow> bool" where
  "adjacent mz u v =
     (isCell mz u \<and>
      (\<exists>dir \<in> set [0, 1, 2, 3].
         let pu = cellPt u (mazeW mz); nx = nbrX (fst pu) dir; ny = nbrY (snd pu) dir
         in \<not> outOfGrid mz nx ny \<and> canMove mz (fst pu) (snd pu) dir
            \<and> v = cellId nx ny (mazeW mz)))"

definition simplePath :: "Maze \<Rightarrow> int \<Rightarrow> int \<Rightarrow> int list \<Rightarrow> bool" where
  "simplePath mz a b p =
     (p \<noteq> [] \<and> hd p = a \<and> last p = b \<and> distinct p \<and> (\<forall>x \<in> set p. isCell mz x)
      \<and> successively (adjacent mz) p)"

definition connectedMaze :: "Maze \<Rightarrow> bool" where
  "connectedMaze mz = (\<forall>v. isCell mz v \<longrightarrow> (adjacent mz)\<^sup>*\<^sup>* 0 v)"

definition acyclicMaze :: "Maze \<Rightarrow> bool" where
  "acyclicMaze mz =
     (\<not> (\<exists>p. 3 \<le> length p \<and> distinct p \<and> successively (adjacent mz) p
               \<and> adjacent mz (last p) (hd p)))"

subsection \<open>Simple paths in a graph\<close>

text \<open>
  The same notions for an arbitrary edge relation \<open>R\<close>: \<open>sp R a b p\<close> is a simple path,
  \<open>uniquePaths R\<close> says that two vertices are joined by at most one, and \<open>withEdge R a b\<close> is
  \<open>R\<close> with the edge between \<open>a\<close> and \<open>b\<close> added in both directions.
\<close>

definition sp :: "('a \<Rightarrow> 'a \<Rightarrow> bool) \<Rightarrow> 'a \<Rightarrow> 'a \<Rightarrow> 'a list \<Rightarrow> bool" where
  "sp R a b p = (p \<noteq> [] \<and> hd p = a \<and> last p = b \<and> distinct p \<and> successively R p)"

definition uniquePaths :: "('a \<Rightarrow> 'a \<Rightarrow> bool) \<Rightarrow> bool" where
  "uniquePaths R = (\<forall>a b p q. sp R a b p \<and> sp R a b q \<longrightarrow> p = q)"

definition withEdge :: "('a \<Rightarrow> 'a \<Rightarrow> bool) \<Rightarrow> 'a \<Rightarrow> 'a \<Rightarrow> 'a \<Rightarrow> 'a \<Rightarrow> bool" where
  "withEdge R a b x y = (R x y \<or> (x = a \<and> y = b) \<or> (x = b \<and> y = a))"

subsection \<open>Walls and candidate edges\<close>

text \<open>
  \<open>openRight mz a\<close> and \<open>openDown mz a\<close>: the wall between cell \<open>a\<close> and its right or lower
  neighbour is removed. \<open>removedWalls\<close> counts the entries \<open>false\<close> of the two grids, and
  \<open>edgeSet\<close> is the set of edges of the maze graph, each pair of adjacent cells taken once.
  \<open>validEdge\<close> describes the triples the two collecting loops produce; \<open>edgeA\<close> and \<open>edgeB\<close>
  are the two cell indices \<open>a\<close> and \<open>b\<close> the generation loop computes from an edge.
\<close>

definition openRight :: "Maze \<Rightarrow> int \<Rightarrow> bool" where
  "openRight mz a =
     (isCell mz a \<and> fst (cellPt a (mazeW mz)) + 1 < mazeW mz
      \<and> \<not> hasRightWall mz ! nat (fst (cellPt a (mazeW mz))) ! nat (snd (cellPt a (mazeW mz))))"

definition openDown :: "Maze \<Rightarrow> int \<Rightarrow> bool" where
  "openDown mz a =
     (isCell mz a \<and> snd (cellPt a (mazeW mz)) + 1 < mazeH mz
      \<and> \<not> hasDownWall mz ! nat (fst (cellPt a (mazeW mz))) ! nat (snd (cellPt a (mazeW mz))))"

definition removedWalls :: "Maze \<Rightarrow> nat" where
  "removedWalls mz =
     length (filter Not (concat (hasRightWall mz))) + length (filter Not (concat (hasDownWall mz)))"

definition edgeSet :: "Maze \<Rightarrow> (int \<times> int) set" where
  "edgeSet mz = {(u, v). u < v \<and> adjacent mz u v}"

definition validEdge :: "Maze \<Rightarrow> Edge \<Rightarrow> bool" where
  "validEdge mz e =
     (case e of (x, y, dir) \<Rightarrow>
        0 \<le> x \<and> x < mazeW mz \<and> 0 \<le> y \<and> y < mazeH mz
        \<and> ((dir = 1 \<and> x + 1 < mazeW mz) \<or> (dir = 2 \<and> y + 1 < mazeH mz)))"

definition edgeA :: "Maze \<Rightarrow> Edge \<Rightarrow> int" where
  "edgeA mz e = (case e of (x, y, dir) \<Rightarrow> y * mazeW mz + x)"

definition edgeB :: "Maze \<Rightarrow> Edge \<Rightarrow> int" where
  "edgeB mz e = (case e of (x, y, dir) \<Rightarrow>
                   if dir = 1 then y * mazeW mz + x + 1 else y * mazeW mz + x + mazeW mz)"

subsection \<open>Invariant of the generation loop\<close>

text \<open>
  Between two edges of the generation loop: the maze keeps its dimensions and grid sizes, the
  forest is well formed, two cells have the same root exactly when the removed walls connect
  them, simple paths are unique, the removed walls and the roots together number \<open>W * H\<close>,
  and there are as many edges as removed walls.
\<close>

definition sameRoot :: "int list \<Rightarrow> int \<Rightarrow> int \<Rightarrow> bool" where
  "sameRoot l a b = (\<exists>r. rep l a r \<and> rep l b r)"

definition roots :: "int list \<Rightarrow> int set" where
  "roots l = {r. rep l r r}"

definition kInv :: "int \<Rightarrow> int \<Rightarrow> Maze \<times> DisjointSet \<Rightarrow> bool" where
  "kInv W H s =
     (case s of (mz, ds) \<Rightarrow>
        mazeW mz = W \<and> mazeH mz = H \<and> wfMaze mz \<and> uf_inv (parent ds)
        \<and> length (parent ds) = nat (W * H)
        \<and> (\<forall>a b. isCell mz a \<and> isCell mz b \<longrightarrow>
               (sameRoot (parent ds) a b \<longleftrightarrow> (adjacent mz)\<^sup>*\<^sup>* a b))
        \<and> uniquePaths (adjacent mz)
        \<and> removedWalls mz + card (roots (parent ds)) = nat (W * H)
        \<and> card (edgeSet mz) = removedWalls mz)"

subsection \<open>Invariants of the searches\<close>

text \<open>
  \<open>parentChain mz par v p\<close>: \<open>p\<close> is the list of cells met from \<open>v\<close> along the parent links
  \<open>par\<close> down to the start cell 0, whose parent is \<open>-1\<close>; each link is an adjacency and no cell
  occurs twice. \<open>treeInv\<close>: every visited cell has such a chain inside the visited set and every
  other cell still has parent \<open>-1\<close>. \<open>closedAt mz V u\<close>: all neighbours of \<open>u\<close> are in \<open>V\<close>.
  \<open>unvisited\<close> counts the cells outside a set. \<open>dfsInv\<close> and \<open>bfsInv\<close> are the invariants of
  the two loops; \<open>bfsMid\<close> is the state between two iterations of the direction loop of BFS,
  for the cell \<open>u\<close> being expanded and the set \<open>D\<close> of directions already tried.
\<close>

definition parentChain :: "Maze \<Rightarrow> int list \<Rightarrow> int \<Rightarrow> int list \<Rightarrow> bool" where
  "parentChain mz par v p =
     (p \<noteq> [] \<and> hd p = v \<and> last p = 0 \<and> par ! 0 = - 1 \<and> distinct p
      \<and> (\<forall>x \<in> set p. isCell mz x)
      \<and> successively (\<lambda>a b. par ! nat a = b \<and> adjacent mz b a) p)"

definition treeInv :: "Maze \<Rightarrow> int set \<Rightarrow> int list \<Rightarrow> bool" where
  "treeInv mz V par =
     (length par = nat (mazeW mz * mazeH mz) \<and> (\<forall>v \<in> V. isCell mz v) \<and> 0 \<in> V
      \<and> (\<forall>v \<in> V. \<exists>p. parentChain mz par v p \<and> set p \<subseteq> V)
      \<and> (\<forall>v. isCell mz v \<and> v \<notin> V \<longrightarrow> par ! nat v = - 1))"

definition closedAt :: "Maze \<Rightarrow> int set \<Rightarrow> int \<Rightarrow> bool" where
  "closedAt mz V u = (\<forall>v. adjacent mz u v \<longrightarrow> v \<in> V)"

definition unvisited :: "Maze \<Rightarrow> int set \<Rightarrow> nat" where
  "unvisited mz V = card ({0..<mazeW mz * mazeH mz} - V)"

definition dfsInv :: "Maze \<Rightarrow> DFS_state \<Rightarrow> bool" where
  "dfsInv mz s =
     (treeInv mz (visitedSet s) (parentOf s) \<and> set (stk s) \<subseteq> visitedSet s
      \<and> (\<forall>u \<in> visitedSet s. u \<notin> set (stk s) \<longrightarrow> closedAt mz (visitedSet s) u)
      \<and> (stopped s \<longrightarrow> goalCell mz \<in> visitedSet s)
      \<and> (\<not> stopped s \<longrightarrow> goalCell mz \<in> visitedSet s \<longrightarrow>
            stk s \<noteq> [] \<and> last (stk s) = goalCell mz))"

definition bfsInv :: "Maze \<Rightarrow> BFS_state \<Rightarrow> bool" where
  "bfsInv mz s =
     (treeInv mz (visitedSet s) (parentOf s) \<and> set (que s) \<subseteq> visitedSet s
      \<and> (\<not> stopped s \<longrightarrow> (\<forall>u \<in> visitedSet s. u \<notin> set (que s) \<longrightarrow> closedAt mz (visitedSet s) u))
      \<and> (stopped s \<longrightarrow> goalCell mz \<in> visitedSet s)
      \<and> (\<not> stopped s \<longrightarrow> goalCell mz \<in> visitedSet s \<longrightarrow> goalCell mz \<in> set (que s)))"

definition bfsMid :: "Maze \<Rightarrow> int \<Rightarrow> int set \<Rightarrow> BFS_state \<Rightarrow> bool" where
  "bfsMid mz u D s =
     (treeInv mz (visitedSet s) (parentOf s) \<and> set (que s) \<subseteq> visitedSet s
      \<and> u \<in> visitedSet s \<and> \<not> stopped s
      \<and> (\<forall>u' \<in> visitedSet s. u' \<notin> set (que s) \<longrightarrow> u' \<noteq> u \<longrightarrow> closedAt mz (visitedSet s) u')
      \<and> (\<forall>dir \<in> D.
            \<not> outOfGrid mz (nbrX (fst (cellPt u (mazeW mz))) dir) (nbrY (snd (cellPt u (mazeW mz))) dir)
            \<and> canMove mz (fst (cellPt u (mazeW mz))) (snd (cellPt u (mazeW mz))) dir
            \<longrightarrow> cellId (nbrX (fst (cellPt u (mazeW mz))) dir) (nbrY (snd (cellPt u (mazeW mz))) dir)
                  (mazeW mz) \<in> visitedSet s)
      \<and> (goalCell mz \<in> visitedSet s \<longrightarrow> goalCell mz \<in> set (que s)))"

text \<open>
  For \<open>runPQ\<close>: \<open>relaxedAt mz d u\<close> says that no edge out of \<open>u\<close> can lower a distance any
  more; \<open>labelled mz d v\<close> that some simple path from the start to \<open>v\<close> has \<open>d[v]\<close> edges and
  bounds the distances along it; \<open>pqCore\<close> is what holds of \<open>dist\<close>, \<open>parentOf\<close> and the queue
  at every moment, \<open>pqInv\<close> the loop invariant, \<open>pqMid\<close> the state between two iterations of
  the direction loop, and \<open>pqMeasure\<close> the quantity every iteration decreases.
\<close>

definition relaxedAt :: "Maze \<Rightarrow> int list \<Rightarrow> int \<Rightarrow> bool" where
  "relaxedAt mz d u = (\<forall>v. adjacent mz u v \<longrightarrow> d ! nat v \<le> d ! nat u + 1)"

definition labelled :: "Maze \<Rightarrow> int list \<Rightarrow> int \<Rightarrow> bool" where
  "labelled mz d v =
     (\<exists>p. p \<noteq> [] \<and> hd p = 0 \<and> last p = v \<and> distinct p \<and> (\<forall>x \<in> set p. isCell mz x)
          \<and> int (length p) = d ! nat v + 1 \<and> (\<forall>i < length p. d ! nat (p ! i) \<le> int i))"

definition pqCore :: "Maze \<Rightarrow> PQ_state \<Rightarrow> bool" where
  "pqCore mz s =
     (length (dist s) = nat (mazeW mz * mazeH mz)
      \<and> length (parentOf s) = nat (mazeW mz * mazeH mz)
      \<and> dist s ! 0 = 0 \<and> parentOf s ! 0 = - 1
      \<and> (\<forall>v. isCell mz v \<longrightarrow> 0 \<le> dist s ! nat v \<and> dist s ! nat v \<le> INT_MAX)
      \<and> (\<forall>v. isCell mz v \<and> v \<noteq> 0 \<and> dist s ! nat v < INT_MAX \<longrightarrow>
             isCell mz (parentOf s ! nat v) \<and> adjacent mz (parentOf s ! nat v) v
             \<and> dist s ! nat (parentOf s ! nat v) < dist s ! nat v)
      \<and> (\<forall>v. isCell mz v \<and> \<not> dist s ! nat v < INT_MAX \<longrightarrow> parentOf s ! nat v = - 1)
      \<and> (\<forall>v. isCell mz v \<and> dist s ! nat v < INT_MAX \<longrightarrow> labelled mz (dist s) v)
      \<and> (\<forall>e \<in> set (pq s). isCell mz (snd e) \<and> dist s ! nat (snd e) < INT_MAX))"

definition pqInv :: "Maze \<Rightarrow> PQ_state \<Rightarrow> bool" where
  "pqInv mz s =
     (pqCore mz s
      \<and> (\<not> stopped s \<longrightarrow>
            (\<forall>u. isCell mz u \<and> dist s ! nat u < INT_MAX \<longrightarrow>
                   u \<in> snd ` set (pq s) \<or> relaxedAt mz (dist s) u))
      \<and> (stopped s \<longrightarrow> dist s ! nat (goalCell mz) < INT_MAX)
      \<and> (\<not> stopped s \<longrightarrow> dist s ! nat (goalCell mz) < INT_MAX \<longrightarrow>
            goalCell mz \<in> snd ` set (pq s)))"

definition pqMid :: "Maze \<Rightarrow> int \<Rightarrow> int set \<Rightarrow> PQ_state \<Rightarrow> bool" where
  "pqMid mz u D s =
     (pqCore mz s \<and> \<not> stopped s \<and> isCell mz u \<and> dist s ! nat u < INT_MAX
      \<and> (\<forall>u'. isCell mz u' \<and> dist s ! nat u' < INT_MAX \<and> u' \<noteq> u \<longrightarrow>
                   u' \<in> snd ` set (pq s) \<or> relaxedAt mz (dist s) u')
      \<and> (\<forall>dir \<in> D.
            \<not> outOfGrid mz (nbrX (fst (cellPt u (mazeW mz))) dir) (nbrY (snd (cellPt u (mazeW mz))) dir)
            \<and> canMove mz (fst (cellPt u (mazeW mz))) (snd (cellPt u (mazeW mz))) dir
            \<longrightarrow> dist s ! nat (cellId (nbrX (fst (cellPt u (mazeW mz))) dir)
                                       (nbrY (snd (cellPt u (mazeW mz))) dir) (mazeW mz))
                  \<le> dist s ! nat u + 1)
      \<and> (dist s ! nat (goalCell mz) < INT_MAX \<longrightarrow> goalCell mz \<in> snd ` set (pq s)))"

definition pqMeasure :: "PQ_state \<Rightarrow> nat" where
  "pqMeasure s = nat (sum_list (dist s)) + length (pq s) + (if stopped s then 0 else 1)"

section \<open>Adjacency\<close>

text \<open>
  C3. For every maze, every in-bounds cell \<open>(x, y)\<close> and every direction in
  \<open>{0, 1, 2, 3}\<close> whose neighbour is in bounds as well, \<open>canMove\<close> from the cell in that
  direction equals \<open>canMove\<close> from the neighbour in the opposite direction.
\<close>

theorem canMove_symmetric:
  assumes "0 \<le> x" "x < mazeW mz" "0 \<le> y" "y < mazeH mz"
    and "dir \<in> {0, 1, 2, 3}"
    and "0 \<le> nbrX x dir" "nbrX x dir < mazeW mz" "0 \<le> nbrY y dir" "nbrY y dir < mazeH mz"
  shows "canMove mz x y dir = canMove mz (nbrX x dir) (nbrY y dir) (opposite dir)"
  using assms by (auto simp: canMove_def nbrX_def nbrY_def opposite_def)

theorem canMove_symmetric_witness:
  "canMove \<lparr>mazeW = 2, mazeH = 1, hasRightWall = [[False], [True]],
            hasDownWall = [[True], [True]]\<rparr> 0 0 1
   = canMove \<lparr>mazeW = 2, mazeH = 1, hasRightWall = [[False], [True]],
              hasDownWall = [[True], [True]]\<rparr> (nbrX 0 1) (nbrY 0 1) (opposite 1)"
  using canMove_symmetric [of 0 "\<lparr>mazeW = 2, mazeH = 1, hasRightWall = [[False], [True]],
            hasDownWall = [[True], [True]]\<rparr>" 0 1]
  by (simp add: nbrX_def nbrY_def)

text \<open>
  C10. \<open>canMove\<close> is total in its direction argument: for a direction code outside
  \<open>{0, 1, 2, 3}\<close> it answers false, whatever the cell.
\<close>

theorem canMove_other_dir:
  assumes "dir \<notin> {0, 1, 2, 3}"
  shows "canMove mz x y dir = False"
  using assms by (simp add: canMove_def)

theorem canMove_other_dir_witness:
  "(7::int) \<notin> {0, 1, 2, 3} \<and> canMove \<lparr>mazeW = 2, mazeH = 1, hasRightWall = [[False], [True]],
            hasDownWall = [[True], [True]]\<rparr> 0 0 7 = False"
  using canMove_other_dir [of 7 "\<lparr>mazeW = 2, mazeH = 1, hasRightWall = [[False], [True]],
            hasDownWall = [[True], [True]]\<rparr>" 0 0]
  by simp

section \<open>Union-find\<close>

lemma walk_fun: "walk l x p r \<Longrightarrow> walk l x q s \<Longrightarrow> p = q \<and> r = s"
proof (induction arbitrary: q s rule: walk.induct)
  case (walk_root x)
  show ?case
    using walk_root.prems
  proof (cases rule: walk.cases)
    case walk_root
    then show ?thesis by simp
  next
    case (walk_step p')
    with walk_root.hyps show ?thesis by simp
  qed
next
  case (walk_step x p r)
  show ?case
    using walk_step.prems
  proof (cases rule: walk.cases)
    case walk_root
    with walk_step.hyps show ?thesis by simp
  next
    case (walk_step p')
    with walk_step.IH [of p' s] show ?thesis by simp
  qed
qed

lemma walk_root_end: "walk l x p r \<Longrightarrow> 0 \<le> r \<and> r < int (length l) \<and> l ! nat r = r"
  by (induction rule: walk.induct) auto

lemma walk_range: "walk l x p r \<Longrightarrow> 0 \<le> x \<and> x < int (length l)"
  by (cases rule: walk.cases) auto

lemma walk_set: "walk l x p r \<Longrightarrow> y \<in> set p \<Longrightarrow> \<exists>q. walk l y q r"
  by (induction rule: walk.induct) (auto intro: walk.intros)

lemma walk_hd_last: "walk l x p r \<Longrightarrow> p \<noteq> [] \<and> hd p = x \<and> last p = r"
  by (induction rule: walk.induct) auto

lemma upd_nth_int:
  "0 \<le> i \<Longrightarrow> 0 \<le> j \<Longrightarrow> j < int (length l) \<Longrightarrow>
   l[nat i := v] ! nat j = (if i = j then v else l ! nat j)"
  by (cases "i = j") (simp_all add: eq_nat_nat_iff)

lemma upd_same: "l ! i = v \<Longrightarrow> l[i := v] = l"
  by (metis list_update_id)

lemma findRoot_walk:
  "walk (parent ds) x p r \<Longrightarrow>
   findRoot ds x = Some (r, ds\<lparr>parent := compress (parent ds) p r\<rparr>)"
proof (induction rule: walk.induct)
  case (walk_root x)
  then show ?case
    by (subst findRoot.simps) (simp add: compress_def upd_same)
next
  case (walk_step x p r)
  then show ?case
    by (subst findRoot.simps) (simp add: compress_def)
qed

lemma compress_length [simp]: "length (compress l p r) = length l"
  by (induction p) (auto simp: compress_def)

lemma compress_nth:
  "\<forall>z \<in> set p. 0 \<le> z \<Longrightarrow> 0 \<le> y \<Longrightarrow> y < int (length l) \<Longrightarrow>
   compress l p r ! nat y = (if y \<in> set p then r else l ! nat y)"
proof (induction p)
  case Nil
  then show ?case by (simp add: compress_def)
next
  case (Cons z p)
  have "compress l (z # p) r = (compress l p r)[nat z := r]"
    by (simp add: compress_def)
  with Cons show ?case
    by (simp add: upd_nth_int)
qed

lemma walk_nonneg: "walk l x p r \<Longrightarrow> \<forall>z \<in> set p. 0 \<le> z \<and> z < int (length l)"
  by (induction rule: walk.induct) auto

lemma rep_fun: "rep l x r \<Longrightarrow> rep l x s \<Longrightarrow> r = s"
  unfolding rep_def using walk_fun by blast

lemma rep_root: "0 \<le> x \<Longrightarrow> x < int (length l) \<Longrightarrow> l ! nat x = x \<Longrightarrow> rep l x x"
  unfolding rep_def by (blast intro: walk.intros)

lemma rep_step:
  "0 \<le> x \<Longrightarrow> x < int (length l) \<Longrightarrow> l ! nat x \<noteq> x \<Longrightarrow> rep l (l ! nat x) r \<Longrightarrow> rep l x r"
  unfolding rep_def by (blast intro: walk.intros)

lemma rep_is_root: "rep l x r \<Longrightarrow> 0 \<le> r \<and> r < int (length l) \<and> l ! nat r = r"
  unfolding rep_def using walk_root_end by blast

lemma rep_range: "rep l x r \<Longrightarrow> 0 \<le> x \<and> x < int (length l)"
  unfolding rep_def using walk_range by blast

lemma rep_induct [consumes 1, case_names root step]:
  assumes "rep l x r"
    and "\<And>x. 0 \<le> x \<Longrightarrow> x < int (length l) \<Longrightarrow> l ! nat x = x \<Longrightarrow> P x x"
    and "\<And>x r. 0 \<le> x \<Longrightarrow> x < int (length l) \<Longrightarrow> l ! nat x \<noteq> x \<Longrightarrow> rep l (l ! nat x) r
           \<Longrightarrow> P (l ! nat x) r \<Longrightarrow> P x r"
  shows "P x r"
proof -
  from assms(1) obtain p where "walk l x p r" unfolding rep_def by blast
  then show ?thesis
  proof (induction rule: walk.induct)
    case (walk_root x)
    then show ?case by (rule assms(2))
  next
    case (walk_step x p r)
    then show ?case using assms(3) rep_def by blast
  qed
qed

text \<open>Re-parenting one node to its own representative keeps every representative.\<close>

lemma rep_reparent:
  assumes "rep l y s" and "rep l x r"
  shows "rep (l[nat x := r]) y s"
  using assms(1)
proof (induction rule: rep_induct)
  case (root y)
  have xr: "0 \<le> x" "x < int (length l)" using rep_range [OF assms(2)] by auto
  have "rep l y y" using root by (intro rep_root)
  then have "x = y \<Longrightarrow> r = y"
    using assms(2) rep_fun by blast
  then have "l[nat x := r] ! nat y = y"
    using root xr by (simp add: upd_nth_int)
  then show ?case using root by (intro rep_root) simp_all
next
  case (step y s)
  have xr: "0 \<le> x" "x < int (length l)" using rep_range [OF assms(2)] by auto
  let ?l = "l[nat x := r]"
  have yr: "0 \<le> y" "y < int (length ?l)" using step(1,2) by simp_all
  show ?case
  proof (cases "x = y")
    case True
    have "rep l y s" using step(1-4) by (rule rep_step)
    then have rs: "r = s" using assms(2) rep_fun True by blast
    have rr: "0 \<le> r" "r < int (length l)" "l ! nat r = r"
      using rep_is_root [OF assms(2)] by auto
    have nx: "r \<noteq> x"
    proof
      assume "r = x"
      with rr(3) True have "l ! nat y = y" by simp
      with step(3) show False by simp
    qed
    have "?l ! nat r = r" using rr xr nx by (simp add: upd_nth_int)
    then have 1: "rep ?l r r" using rr(1,2) by (intro rep_root) simp_all
    have "?l ! nat x = r" using xr by simp
    then have 2: "?l ! nat y = s" using True rs by simp
    have 3: "?l ! nat y \<noteq> y" using 2 nx rs True by simp
    have 4: "rep ?l (?l ! nat y) s" using 2 1 rs by simp
    show ?thesis using yr 3 4 by (rule rep_step)
  next
    case False
    then have e: "?l ! nat y = l ! nat y"
      using step(1,2) xr by (simp add: upd_nth_int)
    have 3: "?l ! nat y \<noteq> y" using e step(3) by simp
    have 4: "rep ?l (?l ! nat y) s" using e step(5) by simp
    show ?thesis using yr 3 4 by (rule rep_step)
  qed
qed

lemma rep_compress:
  assumes "\<forall>z \<in> set p. rep l z r"
  shows "\<forall>y s. rep l y s \<longrightarrow> rep (compress l p r) y s"
  using assms
proof (induction p)
  case Nil
  then show ?case by (simp add: compress_def)
next
  case (Cons z p)
  have c: "compress l (z # p) r = (compress l p r)[nat z := r]"
    by (simp add: compress_def)
  from Cons have ih: "\<forall>y s. rep l y s \<longrightarrow> rep (compress l p r) y s"
    by simp
  have "rep l z r" using Cons.prems by simp
  with ih have 3: "rep (compress l p r) z r" by blast
  show ?case
  proof (intro allI impI)
    fix y s assume "rep l y s"
    with ih have "rep (compress l p r) y s" by blast
    then show "rep (compress l (z # p) r) y s"
      using 3 c rep_reparent by simp
  qed
qed

lemma rep_compress_iff:
  assumes "uf_inv l" and "\<forall>z \<in> set p. rep l z r"
  shows "rep (compress l p r) y s \<longleftrightarrow> rep l y s"
proof
  assume a: "rep (compress l p r) y s"
  then have "0 \<le> y \<and> y < int (length l)" using rep_range by fastforce
  with assms(1) obtain s' where s': "rep l y s'" unfolding uf_inv_def by blast
  with rep_compress [OF assms(2)] have "rep (compress l p r) y s'" by blast
  with a have "s = s'" using rep_fun by blast
  with s' show "rep l y s" by simp
next
  assume "rep l y s"
  with rep_compress [OF assms(2)] show "rep (compress l p r) y s" by blast
qed

lemma uf_inv_compress:
  assumes "uf_inv l" and "\<forall>z \<in> set p. rep l z r"
  shows "uf_inv (compress l p r)"
proof -
  have "\<And>x. (\<exists>s. rep (compress l p r) x s) = (\<exists>s. rep l x s)"
    using rep_compress_iff [OF assms] by simp
  then show ?thesis using assms(1) unfolding uf_inv_def by simp
qed

text \<open>What \<open>findRoot\<close> does on a well-formed forest.\<close>

lemma findRoot_rep:
  assumes "uf_inv (parent ds)" and "0 \<le> x" and "x < int (length (parent ds))"
  shows "\<exists>r ds'. findRoot ds x = Some (r, ds') \<and> rep (parent ds) x r
           \<and> sz ds' = sz ds \<and> length (parent ds') = length (parent ds)
           \<and> uf_inv (parent ds')
           \<and> (\<forall>y s. rep (parent ds') y s \<longleftrightarrow> rep (parent ds) y s)"
proof -
  from assms obtain r where r: "rep (parent ds) x r" unfolding uf_inv_def by blast
  then obtain p where p: "walk (parent ds) x p r" unfolding rep_def by blast
  let ?ds = "ds\<lparr>parent := compress (parent ds) p r\<rparr>"
  have f: "findRoot ds x = Some (r, ?ds)" using findRoot_walk [OF p] .
  have all: "\<forall>z \<in> set p. rep (parent ds) z r"
    using walk_set [OF p] unfolding rep_def by blast
  have 1: "uf_inv (parent ?ds)" using uf_inv_compress [OF assms(1) all] by simp
  have 2: "\<forall>y s. rep (parent ?ds) y s \<longleftrightarrow> rep (parent ds) y s"
    using rep_compress_iff [OF assms(1) all] by simp
  show ?thesis using f r 1 2 by simp
qed

text \<open>Linking one root under another redirects exactly the nodes of the linked tree.\<close>

lemma rep_link:
  assumes a: "0 \<le> a" "a < int (length l)" "l ! nat a = a"
    and b: "0 \<le> b" "b < int (length l)" "l ! nat b = b"
    and ab: "a \<noteq> b"
    and y: "rep l y s"
  shows "rep (l[nat b := a]) y (if s = b then a else s)"
  using y
proof (induction rule: rep_induct)
  case (root y)
  let ?l = "l[nat b := a]"
  have la: "?l ! nat a = a" using a b ab by (simp add: upd_nth_int)
  have ra: "rep ?l a a" using a(1,2) la by (intro rep_root) simp_all
  show ?case
  proof (cases "y = b")
    case True
    have 1: "?l ! nat b = a" using b by simp
    have 2: "?l ! nat b \<noteq> b" using 1 ab by simp
    have 3: "rep ?l (?l ! nat b) a" using 1 ra by simp
    have 4: "0 \<le> b" "b < int (length ?l)" using b by simp_all
    have "rep ?l b a" using 4 2 3 by (rule rep_step)
    then show ?thesis using True by simp
  next
    case False
    have "?l ! nat y = y" using False root b by (simp add: upd_nth_int)
    then have "rep ?l y y" using root(1,2) by (intro rep_root) simp_all
    then show ?thesis using False by simp
  qed
next
  case (step y s)
  let ?l = "l[nat b := a]"
  have "y \<noteq> b" using step(3) b(3) by auto
  then have e: "?l ! nat y = l ! nat y" using step(1,2) b by (simp add: upd_nth_int)
  have 1: "0 \<le> y" "y < int (length ?l)" using step(1,2) by simp_all
  have 2: "?l ! nat y \<noteq> y" using e step(3) by simp
  have 3: "rep ?l (?l ! nat y) (if s = b then a else s)" using e step(5) by simp
  show ?case using 1 2 3 by (rule rep_step)
qed

lemma rep_link_iff:
  assumes "uf_inv l"
    and a: "0 \<le> a" "a < int (length l)" "l ! nat a = a"
    and b: "0 \<le> b" "b < int (length l)" "l ! nat b = b"
    and ab: "a \<noteq> b"
  shows "rep (l[nat b := a]) y t \<longleftrightarrow> (\<exists>s. rep l y s \<and> t = (if s = b then a else s))"
proof
  assume h: "rep (l[nat b := a]) y t"
  then have "0 \<le> y \<and> y < int (length l)" using rep_range by fastforce
  with assms(1) obtain s where s: "rep l y s" unfolding uf_inv_def by blast
  have "rep (l[nat b := a]) y (if s = b then a else s)"
    using rep_link [OF a b ab s] .
  with h have "t = (if s = b then a else s)" using rep_fun by blast
  with s show "\<exists>s. rep l y s \<and> t = (if s = b then a else s)" by blast
next
  assume "\<exists>s. rep l y s \<and> t = (if s = b then a else s)"
  then obtain s where s: "rep l y s" and t: "t = (if s = b then a else s)" by blast
  show "rep (l[nat b := a]) y t" unfolding t using rep_link [OF a b ab s] .
qed

lemma uf_inv_link:
  assumes "uf_inv l"
    and a: "0 \<le> a" "a < int (length l)" "l ! nat a = a"
    and b: "0 \<le> b" "b < int (length l)" "l ! nat b = b"
    and ab: "a \<noteq> b"
  shows "uf_inv (l[nat b := a])"
  unfolding uf_inv_def
proof (intro allI impI)
  fix x assume "0 \<le> x \<and> x < int (length (l[nat b := a]))"
  then have "0 \<le> x \<and> x < int (length l)" by simp
  with assms(1) obtain s where "rep l x s" unfolding uf_inv_def by blast
  then have "rep (l[nat b := a]) x (if s = b then a else s)"
    using rep_link [OF a b ab] by blast
  then show "\<exists>r. rep (l[nat b := a]) x r" by blast
qed

text \<open>What \<open>unite\<close> does on a well-formed forest.\<close>

lemma unite_rep:
  assumes inv: "uf_inv (parent ds)"
    and a: "0 \<le> a" "a < int (length (parent ds))"
    and b: "0 \<le> b" "b < int (length (parent ds))"
  shows "\<exists>ds' ra rb. unite ds a b = Some ds' \<and> rep (parent ds) a ra \<and> rep (parent ds) b rb
           \<and> uf_inv (parent ds') \<and> length (parent ds') = length (parent ds)
           \<and> length (sz ds') = length (sz ds)
           \<and> (ra = rb \<longrightarrow> sz ds' = sz ds
                 \<and> (\<forall>y s. rep (parent ds') y s \<longleftrightarrow> rep (parent ds) y s))
           \<and> (ra \<noteq> rb \<longrightarrow>
                 (let big = (if sz ds ! nat ra < sz ds ! nat rb then rb else ra);
                      small = (if sz ds ! nat ra < sz ds ! nat rb then ra else rb)
                  in parent ds' ! nat small = big
                     \<and> sz ds' = (sz ds)[nat big := sz ds ! nat big + sz ds ! nat small]
                     \<and> (\<forall>y t. rep (parent ds') y t \<longleftrightarrow>
                           (\<exists>s. rep (parent ds) y s \<and> t = (if s = small then big else s)))))"
proof -
  from findRoot_rep [OF inv a] obtain ra ds1 where
    f1: "findRoot ds a = Some (ra, ds1)" and ra: "rep (parent ds) a ra"
    and s1: "sz ds1 = sz ds" and l1: "length (parent ds1) = length (parent ds)"
    and i1: "uf_inv (parent ds1)"
    and r1: "\<forall>y s. rep (parent ds1) y s \<longleftrightarrow> rep (parent ds) y s"
    by blast
  have b1: "0 \<le> b" "b < int (length (parent ds1))" using b l1 by simp_all
  from findRoot_rep [OF i1 b1] obtain rb ds2 where
    f2: "findRoot ds1 b = Some (rb, ds2)" and rb1: "rep (parent ds1) b rb"
    and s2: "sz ds2 = sz ds1" and l2: "length (parent ds2) = length (parent ds1)"
    and i2: "uf_inv (parent ds2)"
    and r2: "\<forall>y s. rep (parent ds2) y s \<longleftrightarrow> rep (parent ds1) y s"
    by blast
  have rb: "rep (parent ds) b rb" using rb1 r1 by simp
  have r12: "\<forall>y s. rep (parent ds2) y s \<longleftrightarrow> rep (parent ds) y s" using r1 r2 by simp
  have sz2: "sz ds2 = sz ds" using s1 s2 by simp
  have len2: "length (parent ds2) = length (parent ds)" using l1 l2 by simp
  show ?thesis
  proof (cases "ra = rb")
    case True
    have "unite ds a b = Some ds2" using f1 f2 True by (simp add: unite_def)
    then show ?thesis using ra rb i2 len2 sz2 r12 True by auto
  next
    case False
    define big where "big = (if sz ds ! nat ra < sz ds ! nat rb then rb else ra)"
    define small where "small = (if sz ds ! nat ra < sz ds ! nat rb then ra else rb)"
    define ds' where "ds' = ds2\<lparr>parent := (parent ds2)[nat small := big],
        sz := (sz ds2)[nat big := sz ds2 ! nat big + sz ds2 ! nat small]\<rparr>"
    have u: "unite ds a b = Some ds'"
      using f1 f2 False by (simp add: unite_def ds'_def big_def small_def sz2)
    have "rep (parent ds2) a ra" "rep (parent ds2) b rb" using ra rb r12 by simp_all
    then have roots: "0 \<le> ra" "ra < int (length (parent ds2))" "parent ds2 ! nat ra = ra"
      "0 \<le> rb" "rb < int (length (parent ds2))" "parent ds2 ! nat rb = rb"
      using rep_is_root by blast+
    have bs: "0 \<le> big" "big < int (length (parent ds2))" "parent ds2 ! nat big = big"
      "0 \<le> small" "small < int (length (parent ds2))" "parent ds2 ! nat small = small"
      "big \<noteq> small"
      using roots False by (simp_all add: big_def small_def)
    have i': "uf_inv (parent ds')"
      using uf_inv_link [OF i2 bs] by (simp add: ds'_def)
    have p': "parent ds' ! nat small = big" using bs by (simp add: ds'_def)
    have s': "sz ds' = (sz ds)[nat big := sz ds ! nat big + sz ds ! nat small]"
      by (simp add: ds'_def sz2)
    have r': "\<forall>y t. rep (parent ds') y t \<longleftrightarrow>
                (\<exists>s. rep (parent ds) y s \<and> t = (if s = small then big else s))"
      using rep_link_iff [OF i2 bs] r12 by (simp add: ds'_def)
    have len': "length (parent ds') = length (parent ds)" "length (sz ds') = length (sz ds)"
      by (simp_all add: ds'_def len2 sz2)
    show ?thesis
      apply (rule exI [of _ ds'], rule exI [of _ ra], rule exI [of _ rb])
      using u ra rb i' len' False p' s' r'
      unfolding big_def small_def Let_def
      by simp
  qed
qed

lemma finite_comp: "finite (comp l r)"
proof -
  have "comp l r \<subseteq> {0..<int (length l)}"
    unfolding comp_def using rep_range by auto
  then show ?thesis using finite_subset by blast
qed

lemma comp_cong: "(\<forall>y s. rep l' y s \<longleftrightarrow> rep l y s) \<Longrightarrow> comp l' r = comp l r"
  by (simp add: comp_def)

lemma sz_ok_cong:
  assumes "sz_ok ds" "sz ds' = sz ds" "\<forall>y s. rep (parent ds') y s \<longleftrightarrow> rep (parent ds) y s"
  shows "sz_ok ds'"
  using assms comp_cong [OF assms(3)] unfolding sz_ok_def by simp

lemma sz_ok_link:
  assumes ok: "sz_ok ds"
    and len: "length (sz ds) = length (parent ds)"
    and big: "rep (parent ds) big big" and small: "rep (parent ds) small small"
    and ne: "big \<noteq> small"
    and sz': "sz ds' = (sz ds)[nat big := sz ds ! nat big + sz ds ! nat small]"
    and r': "\<forall>y t. rep (parent ds') y t \<longleftrightarrow>
                (\<exists>s. rep (parent ds) y s \<and> t = (if s = small then big else s))"
  shows "sz_ok ds'"
  unfolding sz_ok_def
proof (intro allI impI)
  fix t assume t: "rep (parent ds') t t"
  then obtain s where s: "rep (parent ds) t s" and ts: "t = (if s = small then big else s)"
    using r' by blast
  have bigr: "0 \<le> big" "big < int (length (sz ds))"
    using rep_range [OF big] len by simp_all
  show "sz ds' ! nat t = int (card (comp (parent ds') t))"
  proof (cases "t = big")
    case True
    have c: "comp (parent ds') big = comp (parent ds) big \<union> comp (parent ds) small"
      unfolding comp_def using r' ne by auto
    have d: "comp (parent ds) big \<inter> comp (parent ds) small = {}"
      unfolding comp_def using rep_fun ne by blast
    have "card (comp (parent ds') big) = card (comp (parent ds) big) + card (comp (parent ds) small)"
      unfolding c using card_Un_disjoint [OF finite_comp finite_comp d] .
    moreover have "sz ds ! nat big = int (card (comp (parent ds) big))"
      using ok big unfolding sz_ok_def by blast
    moreover have "sz ds ! nat small = int (card (comp (parent ds) small))"
      using ok small unfolding sz_ok_def by blast
    moreover have "sz ds' ! nat big = sz ds ! nat big + sz ds ! nat small"
      unfolding sz' using bigr by simp
    ultimately show ?thesis using True by simp
  next
    case False
    then have sne: "s \<noteq> small" and st: "s = t" using ts by (auto split: if_splits)
    have tt: "rep (parent ds) t t" using s st by simp
    have c: "comp (parent ds') t = comp (parent ds) t"
      unfolding comp_def using r' False sne st by auto
    have "0 \<le> t" using rep_range [OF tt] by simp
    then have "sz ds' ! nat t = sz ds ! nat t"
      unfolding sz' using False bigr by (simp add: eq_nat_nat_iff)
    then show ?thesis using c ok tt unfolding sz_ok_def by simp
  qed
qed

lemma rep_self_root: "rep l x r \<Longrightarrow> rep l r r"
  using rep_is_root rep_root by blast

lemma unite_wf:
  assumes wf: "uf_wf ds"
    and a: "0 \<le> a" "a < int (length (parent ds))"
    and b: "0 \<le> b" "b < int (length (parent ds))"
  shows "\<exists>ds' ra rb. unite ds a b = Some ds' \<and> rep (parent ds) a ra \<and> rep (parent ds) b rb
           \<and> uf_wf ds' \<and> length (parent ds') = length (parent ds)
           \<and> (ra = rb \<longrightarrow> sz ds' = sz ds
                 \<and> (\<forall>y s. rep (parent ds') y s \<longleftrightarrow> rep (parent ds) y s))
           \<and> (ra \<noteq> rb \<longrightarrow>
                 (let big = (if sz ds ! nat ra < sz ds ! nat rb then rb else ra);
                      small = (if sz ds ! nat ra < sz ds ! nat rb then ra else rb)
                  in parent ds' ! nat small = big
                     \<and> sz ds' = (sz ds)[nat big := sz ds ! nat big + sz ds ! nat small]
                     \<and> (\<forall>y t. rep (parent ds') y t \<longleftrightarrow>
                           (\<exists>s. rep (parent ds) y s \<and> t = (if s = small then big else s)))))"
proof -
  have inv: "uf_inv (parent ds)" and len: "length (sz ds) = length (parent ds)"
    and ok: "sz_ok ds"
    using wf unfolding uf_wf_def by auto
  from unite_rep [OF inv a b] obtain ds' ra rb where
    u: "unite ds a b = Some ds'" and ra: "rep (parent ds) a ra" and rb: "rep (parent ds) b rb"
    and i': "uf_inv (parent ds')" and lp: "length (parent ds') = length (parent ds)"
    and ls: "length (sz ds') = length (sz ds)"
    and same: "ra = rb \<longrightarrow> sz ds' = sz ds
                 \<and> (\<forall>y s. rep (parent ds') y s \<longleftrightarrow> rep (parent ds) y s)"
    and diff: "ra \<noteq> rb \<longrightarrow>
                 (let big = (if sz ds ! nat ra < sz ds ! nat rb then rb else ra);
                      small = (if sz ds ! nat ra < sz ds ! nat rb then ra else rb)
                  in parent ds' ! nat small = big
                     \<and> sz ds' = (sz ds)[nat big := sz ds ! nat big + sz ds ! nat small]
                     \<and> (\<forall>y t. rep (parent ds') y t \<longleftrightarrow>
                           (\<exists>s. rep (parent ds) y s \<and> t = (if s = small then big else s))))"
    by blast
  have "sz_ok ds'"
  proof (cases "ra = rb")
    case True
    then show ?thesis using same sz_ok_cong [OF ok] by blast
  next
    case False
    define big where "big = (if sz ds ! nat ra < sz ds ! nat rb then rb else ra)"
    define small where "small = (if sz ds ! nat ra < sz ds ! nat rb then ra else rb)"
    have 1: "rep (parent ds) big big" "rep (parent ds) small small" "big \<noteq> small"
      using rep_self_root [OF ra] rep_self_root [OF rb] False
      by (simp_all add: big_def small_def)
    have 2: "sz ds' = (sz ds)[nat big := sz ds ! nat big + sz ds ! nat small]"
      and 3: "\<forall>y t. rep (parent ds') y t \<longleftrightarrow>
                (\<exists>s. rep (parent ds) y s \<and> t = (if s = small then big else s))"
      using diff False unfolding big_def small_def Let_def by simp_all
    show ?thesis using sz_ok_link [OF ok len 1 2 3] .
  qed
  then have "uf_wf ds'" using i' lp ls len unfolding uf_wf_def by simp
  then show ?thesis using u ra rb lp same diff by blast
qed

lemma ctor_length: "0 \<le> n \<Longrightarrow> length (parent (DisjointSet_ctor n)) = nat n"
  by (simp add: DisjointSet_ctor_def)

lemma ctor_nth: "0 \<le> x \<Longrightarrow> x < n \<Longrightarrow> parent (DisjointSet_ctor n) ! nat x = x"
  by (simp add: DisjointSet_ctor_def)

lemma ctor_rep: "0 \<le> n \<Longrightarrow> rep (parent (DisjointSet_ctor n)) x r \<longleftrightarrow> 0 \<le> x \<and> x < n \<and> r = x"
proof
  assume n: "0 \<le> n" and r: "rep (parent (DisjointSet_ctor n)) x r"
  have xr: "0 \<le> x \<and> x < n" using rep_range [OF r] ctor_length [OF n] n by simp
  then have "rep (parent (DisjointSet_ctor n)) x x"
    using ctor_nth ctor_length [OF n] by (intro rep_root) simp_all
  with r have "r = x" using rep_fun by blast
  with xr show "0 \<le> x \<and> x < n \<and> r = x" by simp
next
  assume n: "0 \<le> n" and h: "0 \<le> x \<and> x < n \<and> r = x"
  then have "rep (parent (DisjointSet_ctor n)) x x"
    using ctor_nth ctor_length [OF n] by (intro rep_root) simp_all
  then show "rep (parent (DisjointSet_ctor n)) x r" using h by simp
qed

lemma ctor_wf: "0 \<le> n \<Longrightarrow> uf_wf (DisjointSet_ctor n)"
proof -
  assume n: "0 \<le> n"
  have 1: "uf_inv (parent (DisjointSet_ctor n))"
    unfolding uf_inv_def
  proof (intro allI impI)
    fix x assume "0 \<le> x \<and> x < int (length (parent (DisjointSet_ctor n)))"
    then have "0 \<le> x \<and> x < n" using ctor_length [OF n] n by simp
    then have "rep (parent (DisjointSet_ctor n)) x x" using ctor_rep [OF n] by simp
    then show "\<exists>r. rep (parent (DisjointSet_ctor n)) x r" by blast
  qed
  have 2: "length (sz (DisjointSet_ctor n)) = length (parent (DisjointSet_ctor n))"
    by (simp add: DisjointSet_ctor_def)
  have "\<And>r. 0 \<le> r \<Longrightarrow> r < n \<Longrightarrow> comp (parent (DisjointSet_ctor n)) r = {r}"
    unfolding comp_def using ctor_rep [OF n] by auto
  then have 3: "sz_ok (DisjointSet_ctor n)"
    unfolding sz_ok_def using ctor_rep [OF n] by (simp add: DisjointSet_ctor_def)
  show ?thesis unfolding uf_wf_def using 1 2 3 by simp
qed

text \<open>
  C8, as the code has it. On a well-formed structure, \<open>findRoot a\<close> returns the representative
  of \<open>a\<close> and re-parents every node on the path from \<open>a\<close> to it directly to it, leaving
  every other entry and every representative as they were. \<open>unite a b\<close> returns nothing but
  the structure. When \<open>a\<close> and \<open>b\<close> have the same representative, sizes and
  representatives are unchanged (the parents may be compressed by the two \<open>findRoot\<close> calls).
  Otherwise the root whose component is smaller is attached under the other one (the root of
  \<open>b\<close> under the root of \<open>a\<close> on a tie), the sizes are added, and the nodes of the attached
  component get the other root as representative.
\<close>

theorem union_find_spec:
  assumes "uf_wf ds"
    and "0 \<le> a" "a < int (length (parent ds))"
    and "0 \<le> b" "b < int (length (parent ds))"
  shows "(\<exists>r p ds'. findRoot ds a = Some (r, ds') \<and> walk (parent ds) a p r \<and> uf_wf ds'
            \<and> sz ds' = sz ds \<and> length (parent ds') = length (parent ds)
            \<and> (\<forall>y. 0 \<le> y \<and> y < int (length (parent ds)) \<longrightarrow>
                  parent ds' ! nat y = (if y \<in> set p then r else parent ds ! nat y))
            \<and> (\<forall>y s. rep (parent ds') y s \<longleftrightarrow> rep (parent ds) y s))
       \<and> (\<exists>ra rb ds'. unite ds a b = Some ds' \<and> rep (parent ds) a ra \<and> rep (parent ds) b rb
            \<and> uf_wf ds' \<and> length (parent ds') = length (parent ds)
            \<and> (ra = rb \<longrightarrow> sz ds' = sz ds
                  \<and> (\<forall>y s. rep (parent ds') y s \<longleftrightarrow> rep (parent ds) y s))
            \<and> (ra \<noteq> rb \<longrightarrow>
                  (let big = (if sz ds ! nat ra < sz ds ! nat rb then rb else ra);
                       small = (if sz ds ! nat ra < sz ds ! nat rb then ra else rb)
                   in card (comp (parent ds) small) \<le> card (comp (parent ds) big)
                      \<and> parent ds' ! nat small = big
                      \<and> sz ds' = (sz ds)[nat big := sz ds ! nat big + sz ds ! nat small]
                      \<and> (\<forall>y t. rep (parent ds') y t \<longleftrightarrow>
                            (\<exists>s. rep (parent ds) y s \<and> t = (if s = small then big else s))))))"
proof -
  have inv: "uf_inv (parent ds)" and len: "length (sz ds) = length (parent ds)"
    and ok: "sz_ok ds"
    using assms(1) unfolding uf_wf_def by auto
  from assms(2,3) inv obtain r where "rep (parent ds) a r" unfolding uf_inv_def by blast
  then obtain p where p: "walk (parent ds) a p r" unfolding rep_def by blast
  let ?ds = "ds\<lparr>parent := compress (parent ds) p r\<rparr>"
  have f: "findRoot ds a = Some (r, ?ds)" using findRoot_walk [OF p] .
  have all: "\<forall>z \<in> set p. rep (parent ds) z r"
    using walk_set [OF p] unfolding rep_def by blast
  have r1: "\<forall>y s. rep (parent ?ds) y s \<longleftrightarrow> rep (parent ds) y s"
    using rep_compress_iff [OF inv all] by simp
  have "sz_ok ?ds" using sz_ok_cong [OF ok _ r1] by simp
  then have w1: "uf_wf ?ds"
    using uf_inv_compress [OF inv all] len unfolding uf_wf_def by simp
  have nn: "\<forall>z \<in> set p. 0 \<le> z" using walk_nonneg [OF p] by blast
  have n1: "\<forall>y. 0 \<le> y \<and> y < int (length (parent ds)) \<longrightarrow>
             parent ?ds ! nat y = (if y \<in> set p then r else parent ds ! nat y)"
    using compress_nth [OF nn] by simp
  have first: "\<exists>r p ds'. findRoot ds a = Some (r, ds') \<and> walk (parent ds) a p r \<and> uf_wf ds'
            \<and> sz ds' = sz ds \<and> length (parent ds') = length (parent ds)
            \<and> (\<forall>y. 0 \<le> y \<and> y < int (length (parent ds)) \<longrightarrow>
                  parent ds' ! nat y = (if y \<in> set p then r else parent ds ! nat y))
            \<and> (\<forall>y s. rep (parent ds') y s \<longleftrightarrow> rep (parent ds) y s)"
    apply (rule exI [of _ r], rule exI [of _ p], rule exI [of _ ?ds])
    using f p w1 n1 r1 by simp
  from unite_wf [OF assms] obtain ds' ra rb where
    u: "unite ds a b = Some ds'" and ra: "rep (parent ds) a ra" and rb: "rep (parent ds) b rb"
    and w': "uf_wf ds'" and lp: "length (parent ds') = length (parent ds)"
    and same: "ra = rb \<longrightarrow> sz ds' = sz ds
                 \<and> (\<forall>y s. rep (parent ds') y s \<longleftrightarrow> rep (parent ds) y s)"
    and diff: "ra \<noteq> rb \<longrightarrow>
                 (let big = (if sz ds ! nat ra < sz ds ! nat rb then rb else ra);
                      small = (if sz ds ! nat ra < sz ds ! nat rb then ra else rb)
                  in parent ds' ! nat small = big
                     \<and> sz ds' = (sz ds)[nat big := sz ds ! nat big + sz ds ! nat small]
                     \<and> (\<forall>y t. rep (parent ds') y t \<longleftrightarrow>
                           (\<exists>s. rep (parent ds) y s \<and> t = (if s = small then big else s))))"
    by blast
  have sa: "sz ds ! nat ra = int (card (comp (parent ds) ra))"
    using ok rep_self_root [OF ra] unfolding sz_ok_def by blast
  have sb: "sz ds ! nat rb = int (card (comp (parent ds) rb))"
    using ok rep_self_root [OF rb] unfolding sz_ok_def by blast
  have cmp: "card (comp (parent ds) (if sz ds ! nat ra < sz ds ! nat rb then ra else rb))
             \<le> card (comp (parent ds) (if sz ds ! nat ra < sz ds ! nat rb then rb else ra))"
    using sa sb by simp
  have second: "\<exists>ra rb ds'. unite ds a b = Some ds' \<and> rep (parent ds) a ra \<and> rep (parent ds) b rb
            \<and> uf_wf ds' \<and> length (parent ds') = length (parent ds)
            \<and> (ra = rb \<longrightarrow> sz ds' = sz ds
                  \<and> (\<forall>y s. rep (parent ds') y s \<longleftrightarrow> rep (parent ds) y s))
            \<and> (ra \<noteq> rb \<longrightarrow>
                  (let big = (if sz ds ! nat ra < sz ds ! nat rb then rb else ra);
                       small = (if sz ds ! nat ra < sz ds ! nat rb then ra else rb)
                   in card (comp (parent ds) small) \<le> card (comp (parent ds) big)
                      \<and> parent ds' ! nat small = big
                      \<and> sz ds' = (sz ds)[nat big := sz ds ! nat big + sz ds ! nat small]
                      \<and> (\<forall>y t. rep (parent ds') y t \<longleftrightarrow>
                            (\<exists>s. rep (parent ds) y s \<and> t = (if s = small then big else s)))))"
    apply (rule exI [of _ ra], rule exI [of _ rb], rule exI [of _ ds'])
    using u ra rb w' lp same diff cmp unfolding Let_def by simp
  show ?thesis using first second by (rule conjI)
qed

theorem union_find_spec_witness:
  "(\<exists>r p ds'. findRoot (DisjointSet_ctor 4) 0 = Some (r, ds')
            \<and> walk (parent (DisjointSet_ctor 4)) 0 p r \<and> uf_wf ds'
            \<and> sz ds' = sz (DisjointSet_ctor 4)
            \<and> length (parent ds') = length (parent (DisjointSet_ctor 4))
            \<and> (\<forall>y. 0 \<le> y \<and> y < int (length (parent (DisjointSet_ctor 4))) \<longrightarrow>
                  parent ds' ! nat y
                  = (if y \<in> set p then r else parent (DisjointSet_ctor 4) ! nat y))
            \<and> (\<forall>y s. rep (parent ds') y s \<longleftrightarrow> rep (parent (DisjointSet_ctor 4)) y s))
       \<and> (\<exists>ra rb ds'. unite (DisjointSet_ctor 4) 0 1 = Some ds'
            \<and> rep (parent (DisjointSet_ctor 4)) 0 ra \<and> rep (parent (DisjointSet_ctor 4)) 1 rb
            \<and> uf_wf ds' \<and> length (parent ds') = length (parent (DisjointSet_ctor 4))
            \<and> (ra = rb \<longrightarrow> sz ds' = sz (DisjointSet_ctor 4)
                  \<and> (\<forall>y s. rep (parent ds') y s \<longleftrightarrow> rep (parent (DisjointSet_ctor 4)) y s))
            \<and> (ra \<noteq> rb \<longrightarrow>
                  (let big = (if sz (DisjointSet_ctor 4) ! nat ra < sz (DisjointSet_ctor 4) ! nat rb
                              then rb else ra);
                       small = (if sz (DisjointSet_ctor 4) ! nat ra < sz (DisjointSet_ctor 4) ! nat rb
                                then ra else rb)
                   in card (comp (parent (DisjointSet_ctor 4)) small)
                        \<le> card (comp (parent (DisjointSet_ctor 4)) big)
                      \<and> parent ds' ! nat small = big
                      \<and> sz ds' = (sz (DisjointSet_ctor 4))[nat big :=
                            sz (DisjointSet_ctor 4) ! nat big + sz (DisjointSet_ctor 4) ! nat small]
                      \<and> (\<forall>y t. rep (parent ds') y t \<longleftrightarrow>
                            (\<exists>s. rep (parent (DisjointSet_ctor 4)) y s
                                 \<and> t = (if s = small then big else s))))))"
  by (rule union_find_spec) (simp_all add: ctor_wf ctor_length)

text \<open>
  C8 as stated fails twice. \<open>unite\<close> returns \<open>void\<close>, so no call reports whether it merged.
  And a call on two nodes of one component is not a no-op: after \<open>unite(0,1)\<close>,
  \<open>unite(2,3)\<close> and \<open>unite(0,2)\<close> on four elements, node 3 hangs under 2 under 0, and
  \<open>unite(3,0)\<close> rewrites \<open>parent[3]\<close>.
\<close>

theorem unite_same_component_counterexample:
  "Option.bind (unite (DisjointSet_ctor 4) 0 1) (\<lambda>d1.
   Option.bind (unite d1 2 3) (\<lambda>d2.
   Option.bind (unite d2 0 2) (\<lambda>d3.
   Option.bind (unite d3 3 0) (\<lambda>d4. Some (d3, d4)))))
   = Some (\<lparr>parent = [0, 0, 0, 2], sz = [4, 1, 2, 1]\<rparr>,
           \<lparr>parent = [0, 0, 0, 0], sz = [4, 1, 2, 1]\<rparr>)"
  by code_simp

section \<open>Construction and seeding\<close>

lemma candidateEdges_empty: "W \<le> 0 \<or> H \<le> 0 \<Longrightarrow> candidateEdges W H = []"
  by (auto simp: candidateEdges_def)

lemma shuffle_Nil: "\<forall>s es. mset (shuffle s es) = mset es \<Longrightarrow> shuffle s [] = []"
  by (metis mset_zero_iff)

text \<open>
  C5, as the code has it. Neither the constructor nor the generator tests the dimensions,
  and the program has no invalid-dimensions error. When \<open>W = 0\<close> or \<open>H = 0\<close> and neither
  is negative, construction and generation both succeed and return the maze as constructed,
  with no cell and no removed wall.
\<close>

theorem generateMaze_dimensions:
  assumes "\<forall>s es. mset (shuffle s es) = mset es"
    and "0 \<le> w" "0 \<le> h" "w = 0 \<or> h = 0"
  shows "generateMaze shuffle now w h
         = Some \<lparr>mazeW = w, mazeH = h,
                 hasRightWall = replicate (nat w) (replicate (nat h) True),
                 hasDownWall = replicate (nat w) (replicate (nat h) True)\<rparr>"
proof -
  have "candidateEdges w h = []" using assms(4) candidateEdges_empty [of w h] by auto
  then show ?thesis
    using shuffle_Nil [OF assms(1)]
    by (simp add: generateMaze_def Maze_ctor_def generateRandom_def)
qed

theorem generateMaze_dimensions_witness:
  "(\<forall>s es. mset (exampleShuffle s es) = mset es)
   \<and> generateMaze exampleShuffle 7 0 3
     = Some \<lparr>mazeW = 0, mazeH = 3, hasRightWall = [], hasDownWall = []\<rparr>"
proof -
  have p: "\<forall>s es. mset (exampleShuffle s es) = mset es"
    by (simp add: exampleShuffle_def)
  show ?thesis
    using p generateMaze_dimensions [OF p, of 0 3 7] by simp
qed

text \<open>
  C5 as stated fails at \<open>W = 0\<close>: no error is raised and a maze comes out.
\<close>

theorem generateMaze_zero_width_counterexample:
  "generateMaze exampleShuffle 7 0 3
   = Some \<lparr>mazeW = 0, mazeH = 3, hasRightWall = [], hasDownWall = []\<rparr>"
  by code_simp

section \<open>Cells and adjacency\<close>

lemma cellId_isCell:
  assumes "0 \<le> x" "x < mazeW mz" "0 \<le> y" "y < mazeH mz"
  shows "isCell mz (cellId x y (mazeW mz))"
proof -
  have "y * mazeW mz \<le> (mazeH mz - 1) * mazeW mz"
    using assms by (intro mult_right_mono) simp_all
  then have "y * mazeW mz + x < mazeH mz * mazeW mz"
    using assms by (simp add: algebra_simps)
  moreover have "0 \<le> y * mazeW mz" using assms by simp
  ultimately show ?thesis using assms by (simp add: isCell_def cellId_def mult.commute)
qed

lemma cellPt_inGrid:
  assumes "0 < mazeW mz" "isCell mz u"
  shows "0 \<le> fst (cellPt u (mazeW mz))" "fst (cellPt u (mazeW mz)) < mazeW mz"
    "0 \<le> snd (cellPt u (mazeW mz))" "snd (cellPt u (mazeW mz)) < mazeH mz"
proof -
  show "0 \<le> fst (cellPt u (mazeW mz))" "fst (cellPt u (mazeW mz)) < mazeW mz"
    using assms by (simp_all add: cellPt_def)
  show "0 \<le> snd (cellPt u (mazeW mz))"
    using assms by (simp add: cellPt_def isCell_def pos_imp_zdiv_nonneg_iff)
  have lt: "u < mazeH mz * mazeW mz" using assms by (simp add: isCell_def mult.commute)
  have "u div mazeW mz < mazeH mz"
  proof (rule ccontr)
    assume "\<not> u div mazeW mz < mazeH mz"
    then have "mazeH mz * mazeW mz \<le> (u div mazeW mz) * mazeW mz"
      using assms(1) by (intro mult_right_mono) simp_all
    moreover have "(u div mazeW mz) * mazeW mz + u mod mazeW mz = u" by simp
    moreover have "0 \<le> u mod mazeW mz" using assms(1) by simp
    ultimately show False using lt by linarith
  qed
  then show "snd (cellPt u (mazeW mz)) < mazeH mz" by (simp add: cellPt_def)
qed

lemma cellId_cellPt:
  "cellId (fst (cellPt u W)) (snd (cellPt u W)) W = u"
  by (simp add: cellId_def cellPt_def)

lemma cellPt_cellId:
  assumes "0 \<le> x" "x < W"
  shows "cellPt (cellId x y W) W = (x, y)"
  using assms by (simp add: cellId_def cellPt_def)

text \<open>What the inner loop of DFS returns.\<close>

lemma dfsNext_found:
  assumes "dfsNext mz vis (cellPt u (mazeW mz)) dirs \<noteq> - 1"
    and "set dirs \<subseteq> {0, 1, 2, 3}" and "isCell mz u"
  shows "isCell mz (dfsNext mz vis (cellPt u (mazeW mz)) dirs)
         \<and> dfsNext mz vis (cellPt u (mazeW mz)) dirs \<notin> vis
         \<and> adjacent mz u (dfsNext mz vis (cellPt u (mazeW mz)) dirs)"
  using assms
proof (induction dirs)
  case Nil
  then show ?case by simp
next
  case (Cons dir dirs)
  let ?pu = "cellPt u (mazeW mz)"
  let ?nx = "nbrX (fst ?pu) dir" and ?ny = "nbrY (snd ?pu) dir"
  let ?vid = "cellId ?nx ?ny (mazeW mz)"
  show ?case
  proof (cases "\<not> outOfGrid mz ?nx ?ny \<and> canMove mz (fst ?pu) (snd ?pu) dir \<and> ?vid \<notin> vis")
    case True
    then have e: "dfsNext mz vis ?pu (dir # dirs) = ?vid" by (simp add: Let_def)
    have c: "isCell mz ?vid"
      using True by (intro cellId_isCell) (simp_all add: outOfGrid_def)
    have "dir \<in> set [0, 1, 2, 3]" using Cons.prems(2) by auto
    then have a: "adjacent mz u ?vid"
      unfolding adjacent_def Let_def using True Cons.prems(3) by blast
    show ?thesis unfolding e using c a True by simp
  next
    case False
    then have e: "dfsNext mz vis ?pu (dir # dirs) = dfsNext mz vis ?pu dirs"
      by (auto simp: Let_def)
    show ?thesis unfolding e using Cons.IH Cons.prems e by simp
  qed
qed

lemma dfsNext_none:
  assumes "dfsNext mz vis (cellPt u (mazeW mz)) dirs = - 1"
    and "dir \<in> set dirs"
    and "\<not> outOfGrid mz (nbrX (fst (cellPt u (mazeW mz))) dir) (nbrY (snd (cellPt u (mazeW mz))) dir)"
    and "canMove mz (fst (cellPt u (mazeW mz))) (snd (cellPt u (mazeW mz))) dir"
  shows "cellId (nbrX (fst (cellPt u (mazeW mz))) dir) (nbrY (snd (cellPt u (mazeW mz))) dir) (mazeW mz)
         \<in> vis"
  using assms
proof (induction dirs)
  case Nil
  then show ?case by simp
next
  case (Cons d dirs)
  let ?pu = "cellPt u (mazeW mz)"
  let ?vid = "\<lambda>d. cellId (nbrX (fst ?pu) d) (nbrY (snd ?pu) d) (mazeW mz)"
  have nonneg: "\<And>d. \<not> outOfGrid mz (nbrX (fst ?pu) d) (nbrY (snd ?pu) d) \<Longrightarrow> ?vid d \<noteq> - 1"
  proof -
    fix d assume "\<not> outOfGrid mz (nbrX (fst ?pu) d) (nbrY (snd ?pu) d)"
    then have "isCell mz (?vid d)" by (intro cellId_isCell) (simp_all add: outOfGrid_def)
    then show "?vid d \<noteq> - 1" by (auto simp: isCell_def)
  qed
  show ?case
  proof (cases "\<not> outOfGrid mz (nbrX (fst ?pu) d) (nbrY (snd ?pu) d)
                \<and> canMove mz (fst ?pu) (snd ?pu) d \<and> ?vid d \<notin> vis")
    case True
    then have "dfsNext mz vis ?pu (d # dirs) = ?vid d" by (simp add: Let_def)
    with Cons.prems(1) nonneg True show ?thesis by simp
  next
    case False
    then have e: "dfsNext mz vis ?pu (d # dirs) = dfsNext mz vis ?pu dirs"
      by (auto simp: Let_def)
    show ?thesis
    proof (cases "dir = d")
      case True
      with False Cons.prems show ?thesis by simp
    next
      case False
      with Cons.prems e Cons.IH show ?thesis by simp
    qed
  qed
qed

section \<open>Parent chains and the final path\<close>

lemma isCell_0: "0 < mazeW mz \<Longrightarrow> 0 < mazeH mz \<Longrightarrow> isCell mz 0"
  by (simp add: isCell_def)

lemma treeInv_init:
  assumes "0 < mazeW mz" "0 < mazeH mz"
  shows "treeInv mz {0} (replicate (nat (mazeW mz * mazeH mz)) (- 1))"
proof -
  let ?par = "replicate (nat (mazeW mz * mazeH mz)) (- 1 :: int)"
  have pos: "0 < mazeW mz * mazeH mz" using assms by simp
  have p0: "?par ! 0 = - 1" using pos by simp
  have c: "parentChain mz ?par 0 [0]"
    unfolding parentChain_def using p0 isCell_0 [OF assms] by simp
  have u: "\<forall>v. isCell mz v \<and> v \<notin> {0} \<longrightarrow> ?par ! nat v = - 1"
    by (auto simp: isCell_def)
  show ?thesis unfolding treeInv_def using c u isCell_0 [OF assms]
    by (intro conjI) auto
qed

lemma successively_cong_set:
  assumes "successively P xs" and "\<And>x y. x \<in> set xs \<Longrightarrow> y \<in> set xs \<Longrightarrow> P x y \<Longrightarrow> Q x y"
  shows "successively Q xs"
  using assms by (rule successively_mono)

lemma parentChain_update:
  assumes c: "parentChain mz par v p" and n: "n \<notin> set p" "0 \<le> n"
  shows "parentChain mz (par[nat n := u]) v p"
proof -
  have cells: "\<forall>x \<in> set p. isCell mz x" using c unfolding parentChain_def by simp
  have same: "\<And>x. x \<in> set p \<Longrightarrow> par[nat n := u] ! nat x = par ! nat x"
  proof -
    fix x assume x: "x \<in> set p"
    then have "0 \<le> x" using cells by (auto simp: isCell_def)
    moreover have "x \<noteq> n" using x n by auto
    ultimately have "nat n \<noteq> nat x" using n(2) by (simp add: eq_nat_nat_iff)
    then show "par[nat n := u] ! nat x = par ! nat x" by simp
  qed
  have "0 \<in> set p" using c unfolding parentChain_def by (metis last_in_set)
  then have z: "par[nat n := u] ! 0 = par ! 0" using same [of 0] by simp
  have s: "successively (\<lambda>a b. par[nat n := u] ! nat a = b \<and> adjacent mz b a) p"
  proof (rule successively_cong_set [of "\<lambda>a b. par ! nat a = b \<and> adjacent mz b a"])
    show "successively (\<lambda>a b. par ! nat a = b \<and> adjacent mz b a) p"
      using c unfolding parentChain_def by simp
  qed (simp add: same)
  show ?thesis using c z s unfolding parentChain_def by simp
qed

lemma treeInv_visit:
  assumes t: "treeInv mz V par" and u: "u \<in> V" and n: "isCell mz n" "n \<notin> V"
    and a: "adjacent mz u n"
  shows "treeInv mz (insert n V) (par[nat n := u])"
proof -
  have len: "length par = nat (mazeW mz * mazeH mz)" and cellsV: "\<forall>v \<in> V. isCell mz v"
    and z: "0 \<in> V" and ch: "\<forall>v \<in> V. \<exists>p. parentChain mz par v p \<and> set p \<subseteq> V"
    and un: "\<forall>v. isCell mz v \<and> v \<notin> V \<longrightarrow> par ! nat v = - 1"
    using t unfolding treeInv_def by auto
  have n0: "0 \<le> n" "nat n < length par" using n(1) len by (auto simp: isCell_def)
  have old: "\<And>v. v \<in> V \<Longrightarrow> \<exists>p. parentChain mz (par[nat n := u]) v p \<and> set p \<subseteq> insert n V"
  proof -
    fix v assume "v \<in> V"
    with ch obtain p where p: "parentChain mz par v p" "set p \<subseteq> V" by blast
    then have "n \<notin> set p" using n(2) by auto
    then have "parentChain mz (par[nat n := u]) v p"
      using parentChain_update [OF p(1) _ n0(1)] by simp
    with p(2) show "\<exists>p. parentChain mz (par[nat n := u]) v p \<and> set p \<subseteq> insert n V" by blast
  qed
  from old [OF u] obtain pu where pu: "parentChain mz (par[nat n := u]) u pu" "set pu \<subseteq> insert n V"
    by blast
  from ch u obtain pu0 where pu0: "parentChain mz par u pu0" "set pu0 \<subseteq> V" by blast
  have nu: "n \<notin> set pu0" using pu0(2) n(2) by auto
  have c0: "parentChain mz (par[nat n := u]) u pu0"
    using parentChain_update [OF pu0(1) nu n0(1)] .
  have "parentChain mz (par[nat n := u]) n (n # pu0)"
    using c0 nu n(1) a n0 unfolding parentChain_def
    by (simp add: successively_Cons)
  moreover have "set (n # pu0) \<subseteq> insert n V" using pu0(2) by auto
  ultimately have new: "\<exists>p. parentChain mz (par[nat n := u]) n p \<and> set p \<subseteq> insert n V" by blast
  have un': "\<forall>v. isCell mz v \<and> v \<notin> insert n V \<longrightarrow> par[nat n := u] ! nat v = - 1"
  proof (intro allI impI)
    fix v assume v: "isCell mz v \<and> v \<notin> insert n V"
    then have "nat n \<noteq> nat v" using n0(1) by (auto simp: isCell_def eq_nat_nat_iff)
    then show "par[nat n := u] ! nat v = - 1" using un v by simp
  qed
  show ?thesis unfolding treeInv_def
    using len cellsV n(1) z old new un' by auto
qed

text \<open>The walk of \<open>drawFinalPath\<close> along a parent chain.\<close>

lemma drawFinalPath_walk:
  assumes "successively (\<lambda>a b. par ! nat a = b) p" and "p \<noteq> []"
    and "par ! nat (last p) = - 1" and "\<forall>x \<in> set p. x \<noteq> - 1"
  shows "while_option (\<lambda>(v, cells). v \<noteq> - 1) (\<lambda>(v, cells). (par ! nat v, cells @ [v])) (hd p, acc)
         = Some (- 1, acc @ p)"
  using assms
proof (induction p arbitrary: acc)
  case Nil
  then show ?case by simp
next
  case (Cons x p)
  show ?case
  proof (cases p)
    case Nil
    have x: "x \<noteq> - 1" "par ! nat x = - 1" using Cons.prems Nil by simp_all
    show ?thesis unfolding Nil
      apply (subst while_option_unfold)
      apply (simp add: x)
      apply (subst while_option_unfold)
      apply simp
      done
  next
    case (Cons y r)
    have x: "x \<noteq> - 1" "par ! nat x = y" using Cons.prems Cons by simp_all
    have ih: "while_option (\<lambda>(v, cells). v \<noteq> - 1) (\<lambda>(v, cells). (par ! nat v, cells @ [v]))
                (hd p, acc @ [x]) = Some (- 1, (acc @ [x]) @ p)"
      using Cons.IH [of "acc @ [x]"] Cons.prems Cons by simp
    show ?thesis
      apply (subst while_option_unfold)
      using ih x Cons by simp
  qed
qed

lemma drawFinalPath_chain:
  assumes "parentChain mz par v p"
  shows "drawFinalPath par v = Some p"
proof -
  have 1: "successively (\<lambda>a b. par ! nat a = b) p"
  proof (rule successively_cong_set [of "\<lambda>a b. par ! nat a = b \<and> adjacent mz b a"])
    show "successively (\<lambda>a b. par ! nat a = b \<and> adjacent mz b a) p"
      using assms unfolding parentChain_def by simp
  qed simp
  have 2: "\<forall>x \<in> set p. x \<noteq> - 1" using assms unfolding parentChain_def isCell_def by auto
  have 3: "par ! nat (last p) = - 1" "p \<noteq> []" "hd p = v"
    using assms unfolding parentChain_def by simp_all
  show ?thesis
    unfolding drawFinalPath_def using drawFinalPath_walk [OF 1 3(2) 3(1) 2, of "[]"] 3(3)
    by simp
qed

section \<open>The search loops\<close>

subsection \<open>DFS\<close>

lemma unvisited_insert:
  assumes "isCell mz n" "n \<notin> V"
  shows "unvisited mz (insert n V) < unvisited mz V"
    and "Suc (unvisited mz (insert n V)) = unvisited mz V"
proof -
  have n: "n \<in> {0..<mazeW mz * mazeH mz} - V" using assms by (simp add: isCell_def)
  have e: "{0..<mazeW mz * mazeH mz} - insert n V = ({0..<mazeW mz * mazeH mz} - V) - {n}"
    by auto
  have f: "finite ({0..<mazeW mz * mazeH mz} - V)" by simp
  show "Suc (unvisited mz (insert n V)) = unvisited mz V"
    unfolding unvisited_def e using card_Suc_Diff1 [OF f n] .
  then show "unvisited mz (insert n V) < unvisited mz V" by simp
qed

lemma dfsInv_init:
  assumes "0 < mazeW mz" "0 < mazeH mz"
  shows "dfsInv mz (dfsInit mz)"
  unfolding dfsInv_def dfsInit_def using treeInv_init [OF assms] by simp

lemma closedAt_mono: "closedAt mz V u \<Longrightarrow> V \<subseteq> V' \<Longrightarrow> closedAt mz V' u"
  unfolding closedAt_def by blast

lemma dfsNext_closed:
  assumes "dfsNext mz vis (cellPt u (mazeW mz)) [0, 1, 2, 3] = - 1"
  shows "closedAt mz vis u"
  unfolding closedAt_def adjacent_def Let_def
  using dfsNext_none [OF assms] by blast

lemma dfsBody_step:
  assumes inv: "dfsInv mz s" and ne: "stk s \<noteq> []" and ns: "\<not> stopped s"
    and pos: "0 < mazeW mz" "0 < mazeH mz"
  shows "dfsInv mz (dfsBody mz s)
         \<and> 2 * unvisited mz (visitedSet (dfsBody mz s)) + length (stk (dfsBody mz s))
               + (if stopped (dfsBody mz s) then 0 else 1)
           < 2 * unvisited mz (visitedSet s) + length (stk s) + (if stopped s then 0 else 1)"
proof -
  let ?u = "last (stk s)"
  let ?V = "visitedSet s"
  have t: "treeInv mz ?V (parentOf s)" and sub: "set (stk s) \<subseteq> ?V"
    and cl: "\<forall>u \<in> ?V. u \<notin> set (stk s) \<longrightarrow> closedAt mz ?V u"
    and g: "goalCell mz \<in> ?V \<longrightarrow> last (stk s) = goalCell mz"
    using inv ns unfolding dfsInv_def by auto
  have uV: "?u \<in> ?V" using ne sub last_in_set by blast
  have uc: "isCell mz ?u" using t uV unfolding treeInv_def by blast
  show ?thesis
  proof (cases "?u = goalCell mz")
    case True
    then have e: "dfsBody mz s = s\<lparr>stopped := True\<rparr>" by (simp add: dfsBody_def Let_def)
    show ?thesis unfolding e using inv ns uV True by (simp add: dfsInv_def)
  next
    case False
    let ?n = "dfsNext mz ?V (cellPt ?u (mazeW mz)) [0, 1, 2, 3]"
    show ?thesis
    proof (cases "?n = - 1")
      case True
      then have e: "dfsBody mz s = s\<lparr>stk := butlast (stk s)\<rparr>"
        using False by (simp add: dfsBody_def Let_def)
      have cu: "closedAt mz ?V ?u" using dfsNext_closed [OF True] .
      have "\<And>x. x \<in> set (stk s) \<Longrightarrow> x \<notin> set (butlast (stk s)) \<Longrightarrow> x = ?u"
        using ne by (metis append_butlast_last_id UnE set_append empty_iff insert_iff list.set(1) list.set(2))
      then have cl': "\<forall>u \<in> ?V. u \<notin> set (butlast (stk s)) \<longrightarrow> closedAt mz ?V u"
        using cl cu by blast
      have sub': "set (butlast (stk s)) \<subseteq> ?V" using sub in_set_butlastD by fastforce
      have gn: "goalCell mz \<notin> ?V" using g False by auto
      have i: "dfsInv mz (s\<lparr>stk := butlast (stk s)\<rparr>)"
        unfolding dfsInv_def using t sub' cl' gn ns by simp
      have "length (butlast (stk s)) < length (stk s)" using ne by simp
      then show ?thesis unfolding e using i ns by simp
    next
      case nf: False
      then have e: "dfsBody mz s = s\<lparr>parentOf := (parentOf s)[nat ?n := ?u],
                        stk := stk s @ [?n], visitedSet := insert ?n ?V\<rparr>"
        using False by (simp add: dfsBody_def Let_def)
      have f: "isCell mz ?n" "?n \<notin> ?V" "adjacent mz ?u ?n"
        using dfsNext_found [OF nf _ uc] by simp_all
      have t': "treeInv mz (insert ?n ?V) ((parentOf s)[nat ?n := ?u])"
        using treeInv_visit [OF t uV f] .
      have cl': "\<forall>u \<in> insert ?n ?V. u \<notin> set (stk s @ [?n]) \<longrightarrow> closedAt mz (insert ?n ?V) u"
        using cl closedAt_mono [of mz ?V _ "insert ?n ?V"] by auto
      have gn: "goalCell mz \<notin> ?V" using g False by auto
      have i: "dfsInv mz (s\<lparr>parentOf := (parentOf s)[nat ?n := ?u],
                        stk := stk s @ [?n], visitedSet := insert ?n ?V\<rparr>)"
        unfolding dfsInv_def using t' sub cl' gn ns by auto
      show ?thesis unfolding e using i ns unvisited_insert(2) [OF f(1,2)] by simp
    qed
  qed
qed

lemma dfsLoop_terminates:
  assumes pos: "0 < mazeW mz" "0 < mazeH mz"
  shows "\<exists>s. dfsLoop mz = Some s"
  unfolding dfsLoop_def
proof (rule measure_while_option_Some [where P = "dfsInv mz"
      and f = "\<lambda>s. 2 * unvisited mz (visitedSet s) + length (stk s) + (if stopped s then 0 else 1)"])
  show "dfsInv mz (dfsInit mz)" using dfsInv_init [OF pos] .
next
  fix s assume "dfsInv mz s" and "stk s \<noteq> [] \<and> \<not> stopped s"
  then show "dfsInv mz (dfsBody mz s)
         \<and> 2 * unvisited mz (visitedSet (dfsBody mz s)) + length (stk (dfsBody mz s))
               + (if stopped (dfsBody mz s) then 0 else 1)
           < 2 * unvisited mz (visitedSet s) + length (stk s) + (if stopped s then 0 else 1)"
    using dfsBody_step [OF _ _ _ pos] by blast
qed

lemma dfsLoop_inv:
  assumes pos: "0 < mazeW mz" "0 < mazeH mz" and l: "dfsLoop mz = Some s"
  shows "dfsInv mz s \<and> (stk s = [] \<or> stopped s)"
proof -
  have "dfsInv mz s"
  proof (rule while_option_rule [where P = "dfsInv mz", OF _ l [unfolded dfsLoop_def]])
    show "dfsInv mz (dfsInit mz)" using dfsInv_init [OF pos] .
  next
    fix s assume "dfsInv mz s" and "stk s \<noteq> [] \<and> \<not> stopped s"
    then show "dfsInv mz (dfsBody mz s)" using dfsBody_step [OF _ _ _ pos] by blast
  qed
  moreover have "stk s = [] \<or> stopped s"
    using while_option_stop [OF l [unfolded dfsLoop_def]] by blast
  ultimately show ?thesis by simp
qed

lemma closed_reach:
  assumes "(adjacent mz)\<^sup>*\<^sup>* a v" and "a \<in> V" and "\<forall>u \<in> V. closedAt mz V u"
  shows "v \<in> V"
  using assms by (induction rule: rtranclp_induct) (auto simp: closedAt_def)

lemma goalCell_isCell: "0 < mazeW mz \<Longrightarrow> 0 < mazeH mz \<Longrightarrow> isCell mz (goalCell mz)"
  unfolding goalCell_def by (intro cellId_isCell) simp_all

text \<open>Where DFS ends on a connected maze, and what it draws.\<close>

lemma dfsLoop_goal:
  assumes pos: "0 < mazeW mz" "0 < mazeH mz" and l: "dfsLoop mz = Some s"
    and conn: "connectedMaze mz"
  shows "goalCell mz \<in> visitedSet s"
proof -
  have inv: "dfsInv mz s" and ex: "stk s = [] \<or> stopped s"
    using dfsLoop_inv [OF pos l] by auto
  show ?thesis
  proof (cases "stopped s")
    case True
    then show ?thesis using inv unfolding dfsInv_def by simp
  next
    case False
    then have "stk s = []" using ex by simp
    then have c: "\<forall>u \<in> visitedSet s. closedAt mz (visitedSet s) u"
      using inv unfolding dfsInv_def by simp
    have z: "0 \<in> visitedSet s" using inv unfolding dfsInv_def treeInv_def by simp
    have "(adjacent mz)\<^sup>*\<^sup>* 0 (goalCell mz)"
      using conn goalCell_isCell [OF pos] unfolding connectedMaze_def by blast
    then show ?thesis using closed_reach z c by blast
  qed
qed

subsection \<open>BFS\<close>

lemma bfsVisit_step:
  assumes m: "bfsMid mz u D s" and d: "dir \<in> {0, 1, 2, 3}"
  shows "bfsMid mz u (insert dir D) (bfsVisit mz u dir s)
         \<and> unvisited mz (visitedSet (bfsVisit mz u dir s)) + length (que (bfsVisit mz u dir s))
           = unvisited mz (visitedSet s) + length (que s)"
proof -
  let ?pu = "cellPt u (mazeW mz)"
  let ?nx = "nbrX (fst ?pu) dir" and ?ny = "nbrY (snd ?pu) dir"
  let ?vid = "cellId ?nx ?ny (mazeW mz)"
  let ?V = "visitedSet s"
  have t: "treeInv mz ?V (parentOf s)" and uV: "u \<in> ?V" using m unfolding bfsMid_def by auto
  have uc: "isCell mz u" using t uV unfolding treeInv_def by blast
  show ?thesis
  proof (cases "\<not> outOfGrid mz ?nx ?ny \<and> canMove mz (fst ?pu) (snd ?pu) dir \<and> ?vid \<notin> ?V")
    case True
    then have e: "bfsVisit mz u dir s = s\<lparr>visitedSet := insert ?vid ?V,
                        parentOf := (parentOf s)[nat ?vid := u], que := que s @ [?vid]\<rparr>"
      by (simp add: bfsVisit_def Let_def)
    have c: "isCell mz ?vid" using True by (intro cellId_isCell) (simp_all add: outOfGrid_def)
    have a: "adjacent mz u ?vid"
      unfolding adjacent_def Let_def using True uc d by auto
    have t': "treeInv mz (insert ?vid ?V) ((parentOf s)[nat ?vid := u])"
      using treeInv_visit [OF t uV c _ a] True by simp
    have i: "bfsMid mz u (insert dir D) (s\<lparr>visitedSet := insert ?vid ?V,
                        parentOf := (parentOf s)[nat ?vid := u], que := que s @ [?vid]\<rparr>)"
      unfolding bfsMid_def using m t' closedAt_mono [of mz ?V _ "insert ?vid ?V"]
      by (auto simp: bfsMid_def)
    show ?thesis unfolding e using i unvisited_insert(2) [OF c] True by simp
  next
    case False
    then have e: "bfsVisit mz u dir s = s" by (auto simp: bfsVisit_def Let_def)
    have "bfsMid mz u (insert dir D) s"
      using m False unfolding bfsMid_def by auto
    then show ?thesis unfolding e by simp
  qed
qed

lemma bfsBody_step:
  assumes inv: "bfsInv mz s" and ne: "que s \<noteq> []" and ns: "\<not> stopped s"
  shows "bfsInv mz (bfsBody mz s)
         \<and> unvisited mz (visitedSet (bfsBody mz s)) + length (que (bfsBody mz s))
               + (if stopped (bfsBody mz s) then 0 else 1)
           < unvisited mz (visitedSet s) + length (que s) + (if stopped s then 0 else 1)"
proof -
  let ?u = "hd (que s)"
  let ?V = "visitedSet s"
  let ?s1 = "s\<lparr>que := tl (que s)\<rparr>"
  have t: "treeInv mz ?V (parentOf s)" and sub: "set (que s) \<subseteq> ?V"
    and cl: "\<forall>u \<in> ?V. u \<notin> set (que s) \<longrightarrow> closedAt mz ?V u"
    and g: "goalCell mz \<in> ?V \<longrightarrow> goalCell mz \<in> set (que s)"
    using inv ns unfolding bfsInv_def by auto
  have uV: "?u \<in> ?V" using ne sub hd_in_set by blast
  have q: "set (que s) = insert ?u (set (tl (que s)))"
    using ne by (cases "que s") auto
  have lt: "length (tl (que s)) < length (que s)" using ne by simp
  show ?thesis
  proof (cases "?u = goalCell mz")
    case True
    then have e: "bfsBody mz s = s\<lparr>que := tl (que s), stopped := True\<rparr>"
      by (simp add: bfsBody_def Let_def)
    have "set (tl (que s)) \<subseteq> ?V" using sub q by auto
    then have "bfsInv mz (s\<lparr>que := tl (que s), stopped := True\<rparr>)"
      unfolding bfsInv_def using t uV True by simp
    then show ?thesis unfolding e using ns lt by simp
  next
    case False
    then have e: "bfsBody mz s = fold (bfsVisit mz ?u) [0, 1, 2, 3] ?s1"
      by (simp add: bfsBody_def Let_def)
    have m0: "bfsMid mz ?u {} ?s1"
      unfolding bfsMid_def using t sub cl g uV ns q False by auto
    let ?a = "bfsVisit mz ?u 0 ?s1"
    let ?b = "bfsVisit mz ?u 1 ?a"
    let ?c = "bfsVisit mz ?u 2 ?b"
    let ?d = "bfsVisit mz ?u 3 ?c"
    have ma: "bfsMid mz ?u {0} ?a"
      and ea: "unvisited mz (visitedSet ?a) + length (que ?a)
               = unvisited mz ?V + length (tl (que s))"
      using bfsVisit_step [OF m0, of 0] by simp_all
    have mb: "bfsMid mz ?u {1, 0} ?b"
      and eb: "unvisited mz (visitedSet ?b) + length (que ?b)
               = unvisited mz (visitedSet ?a) + length (que ?a)"
      using bfsVisit_step [OF ma, of 1] by simp_all
    have mc: "bfsMid mz ?u {2, 1, 0} ?c"
      and ec: "unvisited mz (visitedSet ?c) + length (que ?c)
               = unvisited mz (visitedSet ?b) + length (que ?b)"
      using bfsVisit_step [OF mb, of 2] by simp_all
    have md: "bfsMid mz ?u {3, 2, 1, 0} ?d"
      and ed: "unvisited mz (visitedSet ?d) + length (que ?d)
               = unvisited mz (visitedSet ?c) + length (que ?c)"
      using bfsVisit_step [OF mc, of 3] by simp_all
    have fd: "fold (bfsVisit mz ?u) [0, 1, 2, 3] ?s1 = ?d" by simp
    have "closedAt mz (visitedSet ?d) ?u"
      unfolding closedAt_def adjacent_def Let_def using md unfolding bfsMid_def by auto
    then have i: "bfsInv mz ?d"
      using md unfolding bfsMid_def bfsInv_def by blast
    have nsd: "\<not> stopped ?d" using md unfolding bfsMid_def by simp
    show ?thesis unfolding e fd using i ea eb ec ed lt ns nsd by simp
  qed
qed

lemma bfsInv_init:
  assumes "0 < mazeW mz" "0 < mazeH mz"
  shows "bfsInv mz (bfsInit mz)"
  unfolding bfsInv_def bfsInit_def using treeInv_init [OF assms] by simp

lemma bfsLoop_terminates:
  assumes pos: "0 < mazeW mz" "0 < mazeH mz"
  shows "\<exists>s. bfsLoop mz = Some s"
  unfolding bfsLoop_def
proof (rule measure_while_option_Some [where P = "bfsInv mz"
      and f = "\<lambda>s. unvisited mz (visitedSet s) + length (que s) + (if stopped s then 0 else 1)"])
  show "bfsInv mz (bfsInit mz)" using bfsInv_init [OF pos] .
next
  fix s assume "bfsInv mz s" and "que s \<noteq> [] \<and> \<not> stopped s"
  then show "bfsInv mz (bfsBody mz s)
         \<and> unvisited mz (visitedSet (bfsBody mz s)) + length (que (bfsBody mz s))
               + (if stopped (bfsBody mz s) then 0 else 1)
           < unvisited mz (visitedSet s) + length (que s) + (if stopped s then 0 else 1)"
    using bfsBody_step by blast
qed

lemma bfsLoop_inv:
  assumes pos: "0 < mazeW mz" "0 < mazeH mz" and l: "bfsLoop mz = Some s"
  shows "bfsInv mz s \<and> (que s = [] \<or> stopped s)"
proof -
  have "bfsInv mz s"
  proof (rule while_option_rule [where P = "bfsInv mz", OF _ l [unfolded bfsLoop_def]])
    show "bfsInv mz (bfsInit mz)" using bfsInv_init [OF pos] .
  next
    fix s assume "bfsInv mz s" and "que s \<noteq> [] \<and> \<not> stopped s"
    then show "bfsInv mz (bfsBody mz s)" using bfsBody_step by blast
  qed
  moreover have "que s = [] \<or> stopped s"
    using while_option_stop [OF l [unfolded bfsLoop_def]] by blast
  ultimately show ?thesis by simp
qed

lemma bfsLoop_goal:
  assumes pos: "0 < mazeW mz" "0 < mazeH mz" and l: "bfsLoop mz = Some s"
    and conn: "connectedMaze mz"
  shows "goalCell mz \<in> visitedSet s"
proof -
  have inv: "bfsInv mz s" and ex: "que s = [] \<or> stopped s"
    using bfsLoop_inv [OF pos l] by auto
  show ?thesis
  proof (cases "stopped s")
    case True
    then show ?thesis using inv unfolding bfsInv_def by simp
  next
    case False
    then have "que s = []" using ex by simp
    then have c: "\<forall>u \<in> visitedSet s. closedAt mz (visitedSet s) u"
      using inv False unfolding bfsInv_def by simp
    have z: "0 \<in> visitedSet s" using inv unfolding bfsInv_def treeInv_def by simp
    have "(adjacent mz)\<^sup>*\<^sup>* 0 (goalCell mz)"
      using conn goalCell_isCell [OF pos] unfolding connectedMaze_def by blast
    then show ?thesis using closed_reach z c by blast
  qed
qed

subsection \<open>Dijkstra and A*\<close>

lemma upd_cell:
  assumes "isCell mz a" "isCell mz b" "length l = nat (mazeW mz * mazeH mz)"
  shows "l[nat a := x] ! nat b = (if a = b then x else l ! nat b)"
proof -
  have "0 \<le> a" "0 \<le> b" "b < int (length l)" using assms by (auto simp: isCell_def)
  then show ?thesis by (rule upd_nth_int)
qed

lemma labelled_relax:
  assumes lu: "labelled mz d u" and cu: "isCell mz u" and cv: "isCell mz v"
    and len: "length d = nat (mazeW mz * mazeH mz)"
    and lt: "d ! nat u + 1 < d ! nat v"
  shows "labelled mz (d[nat v := d ! nat u + 1]) v"
proof -
  let ?d = "d[nat v := d ! nat u + 1]"
  from lu obtain p where p: "p \<noteq> []" "hd p = 0" "last p = u" "distinct p"
    "\<forall>x \<in> set p. isCell mz x" "int (length p) = d ! nat u + 1"
    "\<forall>i < length p. d ! nat (p ! i) \<le> int i"
    unfolding labelled_def by blast
  have le: "\<And>x. isCell mz x \<Longrightarrow> ?d ! nat x \<le> d ! nat x"
    using upd_cell [OF cv _ len] lt by auto
  have vn: "v \<notin> set p"
  proof
    assume "v \<in> set p"
    then obtain i where i: "i < length p" "p ! i = v" by (auto simp: in_set_conv_nth)
    then have "d ! nat v \<le> int i" using p(7) by auto
    then show False using i(1) p(6) lt by linarith
  qed
  have uv: "u \<noteq> v" using lt by auto
  let ?q = "p @ [v]"
  have 1: "?q \<noteq> []" "hd ?q = 0" "last ?q = v" "distinct ?q" "\<forall>x \<in> set ?q. isCell mz x"
    using p vn cv by auto
  have 2: "int (length ?q) = ?d ! nat v + 1"
    using p(6) upd_cell [OF cv cv len] by simp
  have 3: "\<forall>i < length ?q. ?d ! nat (?q ! i) \<le> int i"
  proof (intro allI impI)
    fix i assume i: "i < length ?q"
    show "?d ! nat (?q ! i) \<le> int i"
    proof (cases "i < length p")
      case True
      then have c: "isCell mz (p ! i)" using p(5) by simp
      have "?d ! nat (p ! i) \<le> d ! nat (p ! i)" using le [OF c] .
      also have "\<dots> \<le> int i" using p(7) True by simp
      finally show ?thesis using True by (simp add: nth_append)
    next
      case False
      then have e: "i = length p" using i by simp
      have "?d ! nat v = d ! nat u + 1" using upd_cell [OF cv cv len] by simp
      then show ?thesis using e p(6) by (simp add: nth_append)
    qed
  qed
  show ?thesis unfolding labelled_def using 1 2 3 by blast
qed

lemma labelled_mono:
  assumes lx: "labelled mz d x" and cx: "isCell mz x" and cv: "isCell mz v"
    and len: "length d = nat (mazeW mz * mazeH mz)"
    and lt: "a < d ! nat v" and xv: "x \<noteq> v"
  shows "labelled mz (d[nat v := a]) x"
proof -
  let ?d = "d[nat v := a]"
  from lx obtain p where p: "p \<noteq> []" "hd p = 0" "last p = x" "distinct p"
    "\<forall>x \<in> set p. isCell mz x" "int (length p) = d ! nat x + 1"
    "\<forall>i < length p. d ! nat (p ! i) \<le> int i"
    unfolding labelled_def by blast
  have le: "\<And>y. isCell mz y \<Longrightarrow> ?d ! nat y \<le> d ! nat y"
    using upd_cell [OF cv _ len] lt by auto
  have 2: "int (length p) = ?d ! nat x + 1"
    using p(6) upd_cell [OF cv cx len] xv by simp
  have 3: "\<forall>i < length p. ?d ! nat (p ! i) \<le> int i"
  proof (intro allI impI)
    fix i assume i: "i < length p"
    then have c: "isCell mz (p ! i)" using p(5) by simp
    have "?d ! nat (p ! i) \<le> d ! nat (p ! i)" using le [OF c] .
    also have "\<dots> \<le> int i" using p(7) i by simp
    finally show "?d ! nat (p ! i) \<le> int i" .
  qed
  show ?thesis unfolding labelled_def using p(1-5) 2 3 by blast
qed

text \<open>One successful relaxation keeps the core invariant.\<close>

lemma pqCore_relax:
  assumes core: "pqCore mz s" and cu: "isCell mz u" and fu: "dist s ! nat u < INT_MAX"
    and cv: "isCell mz v" and adj: "adjacent mz u v"
    and lt: "dist s ! nat u + 1 < dist s ! nat v"
  shows "pqCore mz (s\<lparr>dist := (dist s)[nat v := dist s ! nat u + 1],
                       parentOf := (parentOf s)[nat v := u],
                       pq := pq s @ [(k, v)]\<rparr>)"
proof -
  let ?alt = "dist s ! nat u + 1"
  let ?d = "(dist s)[nat v := ?alt]"
  let ?p = "(parentOf s)[nat v := u]"
  have ld: "length (dist s) = nat (mazeW mz * mazeH mz)"
    and lp: "length (parentOf s) = nat (mazeW mz * mazeH mz)"
    and d0: "dist s ! 0 = 0" and p0: "parentOf s ! 0 = - 1"
    and rng: "\<forall>v. isCell mz v \<longrightarrow> 0 \<le> dist s ! nat v \<and> dist s ! nat v \<le> INT_MAX"
    and par: "\<forall>v. isCell mz v \<and> v \<noteq> 0 \<and> dist s ! nat v < INT_MAX \<longrightarrow>
             isCell mz (parentOf s ! nat v) \<and> adjacent mz (parentOf s ! nat v) v
             \<and> dist s ! nat (parentOf s ! nat v) < dist s ! nat v"
    and unv: "\<forall>v. isCell mz v \<and> \<not> dist s ! nat v < INT_MAX \<longrightarrow> parentOf s ! nat v = - 1"
    and lab: "\<forall>v. isCell mz v \<and> dist s ! nat v < INT_MAX \<longrightarrow> labelled mz (dist s) v"
    and pqc: "\<forall>e \<in> set (pq s). isCell mz (snd e) \<and> dist s ! nat (snd e) < INT_MAX"
    using core unfolding pqCore_def by auto
  have dn: "\<And>x. isCell mz x \<Longrightarrow> ?d ! nat x = (if v = x then ?alt else dist s ! nat x)"
    using upd_cell [OF cv _ ld] by simp
  have pn: "\<And>x. isCell mz x \<Longrightarrow> ?p ! nat x = (if v = x then u else parentOf s ! nat x)"
    using upd_cell [OF cv _ lp] by simp
  have u0: "0 \<le> dist s ! nat u" using rng cu by blast
  have vmax: "dist s ! nat v \<le> INT_MAX" using rng cv by blast
  have v0: "v \<noteq> 0" using lt u0 d0 by auto
  have uv: "u \<noteq> v" using lt by auto
  have z: "isCell mz 0" using cv by (auto simp: isCell_def)
  have le: "\<And>x. isCell mz x \<Longrightarrow> ?d ! nat x \<le> dist s ! nat x" using dn lt by auto
  have 1: "?d ! 0 = 0" using dn [OF z] v0 d0 by simp
  have 2: "?p ! 0 = - 1" using pn [OF z] v0 p0 by simp
  have 3: "\<forall>x. isCell mz x \<longrightarrow> 0 \<le> ?d ! nat x \<and> ?d ! nat x \<le> INT_MAX"
    using dn rng u0 lt vmax by auto
  have 4: "\<forall>x. isCell mz x \<and> x \<noteq> 0 \<and> ?d ! nat x < INT_MAX \<longrightarrow>
             isCell mz (?p ! nat x) \<and> adjacent mz (?p ! nat x) x
             \<and> ?d ! nat (?p ! nat x) < ?d ! nat x"
  proof (intro allI impI)
    fix x assume x: "isCell mz x \<and> x \<noteq> 0 \<and> ?d ! nat x < INT_MAX"
    show "isCell mz (?p ! nat x) \<and> adjacent mz (?p ! nat x) x
             \<and> ?d ! nat (?p ! nat x) < ?d ! nat x"
    proof (cases "x = v")
      case True
      have "?p ! nat x = u" using pn x True by simp
      moreover have "?d ! nat u = dist s ! nat u" using dn [OF cu] uv by simp
      moreover have "?d ! nat x = ?alt" using dn x True by simp
      ultimately show ?thesis using cu adj True by simp
    next
      case False
      then have dx: "?d ! nat x = dist s ! nat x" and px: "?p ! nat x = parentOf s ! nat x"
        using dn pn x by auto
      then have h: "isCell mz (parentOf s ! nat x)" "adjacent mz (parentOf s ! nat x) x"
        "dist s ! nat (parentOf s ! nat x) < dist s ! nat x"
        using par x by auto
      have "?d ! nat (parentOf s ! nat x) \<le> dist s ! nat (parentOf s ! nat x)"
        using le [OF h(1)] .
      then show ?thesis using h dx px by simp
    qed
  qed
  have 5: "\<forall>x. isCell mz x \<and> \<not> ?d ! nat x < INT_MAX \<longrightarrow> ?p ! nat x = - 1"
  proof (intro allI impI)
    fix x assume x: "isCell mz x \<and> \<not> ?d ! nat x < INT_MAX"
    then have "x \<noteq> v" using dn [OF cv] lt vmax by auto
    then show "?p ! nat x = - 1" using x dn pn unv by auto
  qed
  have 6: "\<forall>x. isCell mz x \<and> ?d ! nat x < INT_MAX \<longrightarrow> labelled mz ?d x"
  proof (intro allI impI)
    fix x assume x: "isCell mz x \<and> ?d ! nat x < INT_MAX"
    show "labelled mz ?d x"
    proof (cases "x = v")
      case True
      have "labelled mz (dist s) u" using lab cu fu by blast
      then show ?thesis unfolding True using labelled_relax [OF _ cu cv ld lt] by simp
    next
      case False
      then have "dist s ! nat x < INT_MAX" using x dn by auto
      then have "labelled mz (dist s) x" using lab x by blast
      then show ?thesis using labelled_mono [OF _ _ cv ld lt False] x by blast
    qed
  qed
  have 7: "\<forall>e \<in> set (pq s @ [(k, v)]). isCell mz (snd e) \<and> ?d ! nat (snd e) < INT_MAX"
  proof
    fix e assume "e \<in> set (pq s @ [(k, v)])"
    then have "e \<in> set (pq s) \<or> e = (k, v)" by auto
    then show "isCell mz (snd e) \<and> ?d ! nat (snd e) < INT_MAX"
    proof
      assume e: "e \<in> set (pq s)"
      then have "isCell mz (snd e)" "dist s ! nat (snd e) < INT_MAX" using pqc by auto
      then show ?thesis using le [of "snd e"] by simp
    next
      assume "e = (k, v)"
      then show ?thesis using cv dn [OF cv] lt vmax by simp
    qed
  qed
  show ?thesis unfolding pqCore_def using ld lp 1 2 3 4 5 6 7 by simp
qed

lemma sum_list_upd_int:
  fixes d :: "int list"
  shows "i < length d \<Longrightarrow> sum_list (d[i := x]) = sum_list d - d ! i + x"
proof (induction d arbitrary: i)
  case Nil
  then show ?case by simp
next
  case (Cons a d)
  then show ?case by (cases i) simp_all
qed

lemma dist_sum_nonneg:
  assumes "pqCore mz s"
  shows "0 \<le> sum_list (dist s)"
proof (rule sum_list_nonneg)
  fix x assume "x \<in> set (dist s)"
  then obtain i where i: "i < length (dist s)" "dist s ! i = x" by (auto simp: in_set_conv_nth)
  have "length (dist s) = nat (mazeW mz * mazeH mz)" using assms unfolding pqCore_def by simp
  then have "isCell mz (int i)" using i(1) by (simp add: isCell_def)
  then have "0 \<le> dist s ! nat (int i)" using assms unfolding pqCore_def by blast
  then show "0 \<le> x" using i(2) by simp
qed

lemma adjacent_isCell:
  assumes "adjacent mz a b"
  shows "isCell mz a" "isCell mz b"
proof -
  show "isCell mz a" using assms unfolding adjacent_def by simp
  from assms obtain dir where
    g: "\<not> outOfGrid mz (nbrX (fst (cellPt a (mazeW mz))) dir) (nbrY (snd (cellPt a (mazeW mz))) dir)"
    and b: "b = cellId (nbrX (fst (cellPt a (mazeW mz))) dir) (nbrY (snd (cellPt a (mazeW mz))) dir)
                  (mazeW mz)"
    unfolding adjacent_def Let_def by blast
  show "isCell mz b" unfolding b using g by (intro cellId_isCell) (simp_all add: outOfGrid_def)
qed

lemma relaxedAt_mono:
  assumes "relaxedAt mz d u" and "\<And>x. isCell mz x \<Longrightarrow> d' ! nat x \<le> d ! nat x"
    and "d' ! nat u = d ! nat u"
  shows "relaxedAt mz d' u"
  unfolding relaxedAt_def
proof (intro allI impI)
  fix v assume a: "adjacent mz u v"
  then have "d ! nat v \<le> d ! nat u + 1" using assms(1) unfolding relaxedAt_def by blast
  moreover have "d' ! nat v \<le> d ! nat v" using assms(2) adjacent_isCell(2) [OF a] .
  ultimately show "d' ! nat v \<le> d' ! nat u + 1" using assms(3) by simp
qed

lemma pqRelax_step:
  assumes m: "pqMid mz u D s" and d: "dir \<in> {0, 1, 2, 3}"
  shows "pqMid mz u (insert dir D) (pqRelax mz h u dir s)
         \<and> nat (sum_list (dist (pqRelax mz h u dir s))) + length (pq (pqRelax mz h u dir s))
           \<le> nat (sum_list (dist s)) + length (pq s)"
proof -
  let ?pu = "cellPt u (mazeW mz)"
  let ?nx = "nbrX (fst ?pu) dir" and ?ny = "nbrY (snd ?pu) dir"
  let ?v = "cellId ?nx ?ny (mazeW mz)"
  let ?alt = "dist s ! nat u + 1"
  have core: "pqCore mz s" and ns: "\<not> stopped s" and cu: "isCell mz u"
    and fu: "dist s ! nat u < INT_MAX"
    and oth: "\<forall>u'. isCell mz u' \<and> dist s ! nat u' < INT_MAX \<and> u' \<noteq> u \<longrightarrow>
                   u' \<in> snd ` set (pq s) \<or> relaxedAt mz (dist s) u'"
    and dp: "\<forall>dir \<in> D.
            \<not> outOfGrid mz (nbrX (fst ?pu) dir) (nbrY (snd ?pu) dir)
            \<and> canMove mz (fst ?pu) (snd ?pu) dir
            \<longrightarrow> dist s ! nat (cellId (nbrX (fst ?pu) dir) (nbrY (snd ?pu) dir) (mazeW mz))
                  \<le> dist s ! nat u + 1"
    and gp: "dist s ! nat (goalCell mz) < INT_MAX \<longrightarrow> goalCell mz \<in> snd ` set (pq s)"
    using m unfolding pqMid_def by auto
  show ?thesis
  proof (cases "\<not> outOfGrid mz ?nx ?ny \<and> canMove mz (fst ?pu) (snd ?pu) dir \<and> ?alt < dist s ! nat ?v")
    case False
    then have e: "pqRelax mz h u dir s = s" by (auto simp: pqRelax_def Let_def)
    have "\<not> outOfGrid mz ?nx ?ny \<and> canMove mz (fst ?pu) (snd ?pu) dir
          \<longrightarrow> dist s ! nat ?v \<le> dist s ! nat u + 1"
      using False by auto
    then have "pqMid mz u (insert dir D) s"
      unfolding pqMid_def using core ns cu fu oth dp gp by simp
    then show ?thesis unfolding e by simp
  next
    case True
    note T = True
    let ?d = "(dist s)[nat ?v := ?alt]"
    let ?s = "s\<lparr>dist := ?d, parentOf := (parentOf s)[nat ?v := u],
                 pq := pq s @ [(?alt + h ?v, ?v)]\<rparr>"
    have e: "pqRelax mz h u dir s = ?s" using True by (simp add: pqRelax_def Let_def)
    have cv: "isCell mz ?v" using True by (intro cellId_isCell) (simp_all add: outOfGrid_def)
    have adj: "adjacent mz u ?v" unfolding adjacent_def Let_def using True cu d by auto
    have lt: "?alt < dist s ! nat ?v" using True by simp
    have core': "pqCore mz ?s" using pqCore_relax [OF core cu fu cv adj lt] .
    have ld: "length (dist s) = nat (mazeW mz * mazeH mz)" using core unfolding pqCore_def by simp
    have dn: "\<And>x. isCell mz x \<Longrightarrow> ?d ! nat x = (if ?v = x then ?alt else dist s ! nat x)"
      using upd_cell [OF cv _ ld] by simp
    have le: "\<And>x. isCell mz x \<Longrightarrow> ?d ! nat x \<le> dist s ! nat x" using dn lt by auto
    have uv: "u \<noteq> ?v" using lt by auto
    have du: "?d ! nat u = dist s ! nat u" using dn [OF cu] uv by simp
    have vmax: "dist s ! nat ?v \<le> INT_MAX" using core cv unfolding pqCore_def by blast
    have oth': "\<forall>u'. isCell mz u' \<and> ?d ! nat u' < INT_MAX \<and> u' \<noteq> u \<longrightarrow>
                   u' \<in> snd ` set (pq s @ [(?alt + h ?v, ?v)]) \<or> relaxedAt mz ?d u'"
    proof (intro allI impI)
      fix u' assume u': "isCell mz u' \<and> ?d ! nat u' < INT_MAX \<and> u' \<noteq> u"
      show "u' \<in> snd ` set (pq s @ [(?alt + h ?v, ?v)]) \<or> relaxedAt mz ?d u'"
      proof (cases "u' = ?v")
        case True
        then show ?thesis by simp
      next
        case False
        then have same: "?d ! nat u' = dist s ! nat u'" using dn u' by auto
        then have "u' \<in> snd ` set (pq s) \<or> relaxedAt mz (dist s) u'" using oth u' by simp
        then show ?thesis
        proof
          assume "u' \<in> snd ` set (pq s)"
          then show ?thesis by auto
        next
          assume "relaxedAt mz (dist s) u'"
          then have "relaxedAt mz ?d u'" using relaxedAt_mono le same by blast
          then show ?thesis by simp
        qed
      qed
    qed
    have dp': "\<forall>dir' \<in> insert dir D.
            \<not> outOfGrid mz (nbrX (fst ?pu) dir') (nbrY (snd ?pu) dir')
            \<and> canMove mz (fst ?pu) (snd ?pu) dir'
            \<longrightarrow> ?d ! nat (cellId (nbrX (fst ?pu) dir') (nbrY (snd ?pu) dir') (mazeW mz))
                  \<le> ?d ! nat u + 1"
    proof (intro ballI impI)
      fix dir' assume d': "dir' \<in> insert dir D"
        and g: "\<not> outOfGrid mz (nbrX (fst ?pu) dir') (nbrY (snd ?pu) dir')
            \<and> canMove mz (fst ?pu) (snd ?pu) dir'"
      let ?w = "cellId (nbrX (fst ?pu) dir') (nbrY (snd ?pu) dir') (mazeW mz)"
      have cw: "isCell mz ?w" using g by (intro cellId_isCell) (simp_all add: outOfGrid_def)
      show "?d ! nat ?w \<le> ?d ! nat u + 1"
      proof (cases "?w = ?v")
        case True
        then show ?thesis using dn [OF cv] du by simp
      next
        case False
        then have "dir' \<noteq> dir" by auto
        then have "dir' \<in> D" using d' by simp
        then have "dist s ! nat ?w \<le> dist s ! nat u + 1" using dp g by blast
        then show ?thesis using le [OF cw] du by simp
      qed
    qed
    have gp': "?d ! nat (goalCell mz) < INT_MAX \<longrightarrow>
               goalCell mz \<in> snd ` set (pq s @ [(?alt + h ?v, ?v)])"
    proof
      assume a: "?d ! nat (goalCell mz) < INT_MAX"
      show "goalCell mz \<in> snd ` set (pq s @ [(?alt + h ?v, ?v)])"
      proof (cases "goalCell mz = ?v")
        case True
        then show ?thesis by simp
      next
        case False
        have "0 < mazeW mz" "0 < mazeH mz" using T by (auto simp: outOfGrid_def)
        then have "isCell mz (goalCell mz)" by (rule goalCell_isCell)
        then have "dist s ! nat (goalCell mz) < INT_MAX" using a dn False by auto
        then show ?thesis using gp by auto
      qed
    qed
    have mid: "pqMid mz u (insert dir D) ?s"
      unfolding pqMid_def using core' ns cu fu du oth' dp' gp' by simp
    have "nat ?v < length (dist s)" using cv ld by (auto simp: isCell_def)
    then have "sum_list ?d = sum_list (dist s) - dist s ! nat ?v + ?alt"
      by (rule sum_list_upd_int)
    moreover have "0 \<le> sum_list ?d" using dist_sum_nonneg [OF core'] by simp
    ultimately have "nat (sum_list ?d) + 1 \<le> nat (sum_list (dist s))" using lt by linarith
    then show ?thesis unfolding e using mid by simp
  qed
qed

lemma pqCore_cong:
  assumes "pqCore mz s" "dist s' = dist s" "parentOf s' = parentOf s" "set (pq s') \<subseteq> set (pq s)"
  shows "pqCore mz s'"
  using assms unfolding pqCore_def by auto

lemma pqTop_in: "q \<noteq> [] \<Longrightarrow> pqTop q \<in> set q"
  unfolding pqTop_def by (intro Min_in) simp_all

lemma pqPop_props:
  assumes "q \<noteq> []"
  shows "set (pqPop q) \<subseteq> set q" "Suc (length (pqPop q)) = length q"
    "\<And>e. e \<in> set q \<Longrightarrow> snd e \<noteq> snd (pqTop q) \<Longrightarrow> e \<in> set (pqPop q)"
proof -
  show "set (pqPop q) \<subseteq> set q" unfolding pqPop_def by (rule set_remove1_subset)
  have "length q \<noteq> 0" using assms by simp
  then show "Suc (length (pqPop q)) = length q"
    unfolding pqPop_def using pqTop_in [OF assms] by (simp add: length_remove1)
  fix e assume e: "e \<in> set q" "snd e \<noteq> snd (pqTop q)"
  then have "e \<noteq> pqTop q" by auto
  then show "e \<in> set (pqPop q)" unfolding pqPop_def using e(1) by simp
qed

lemma pqBody_step:
  assumes inv: "pqInv mz s" and ne: "pq s \<noteq> []" and ns: "\<not> stopped s"
  shows "pqInv mz (pqBody mz h skip s) \<and> pqMeasure (pqBody mz h skip s) < pqMeasure s"
proof -
  let ?u = "snd (pqTop (pq s))"
  let ?s1 = "s\<lparr>pq := pqPop (pq s)\<rparr>"
  let ?s2 = "?s1\<lparr>visitedSet := insert ?u (visitedSet ?s1)\<rparr>"
  have core: "pqCore mz s"
    and clo: "\<forall>u. isCell mz u \<and> dist s ! nat u < INT_MAX \<longrightarrow>
                   u \<in> snd ` set (pq s) \<or> relaxedAt mz (dist s) u"
    and gp: "dist s ! nat (goalCell mz) < INT_MAX \<longrightarrow> goalCell mz \<in> snd ` set (pq s)"
    using inv ns unfolding pqInv_def by auto
  have top: "pqTop (pq s) \<in> set (pq s)" using pqTop_in [OF ne] .
  then have cu: "isCell mz ?u" and fu: "dist s ! nat ?u < INT_MAX"
    using core unfolding pqCore_def by auto
  note pop = pqPop_props [OF ne]
  have keep: "\<And>x. x \<in> snd ` set (pq s) \<Longrightarrow> x \<noteq> ?u \<Longrightarrow> x \<in> snd ` set (pqPop (pq s))"
    using pop(3) by force
  have core1: "pqCore mz ?s1" using pqCore_cong [OF core] pop(1) by simp
  have core2: "pqCore mz ?s2" using pqCore_cong [OF core] pop(1) by simp
  show ?thesis
  proof (cases "?u = goalCell mz")
    case True
    have e: "pqBody mz h skip s = (if skip then ?s1\<lparr>stopped := True\<rparr> else ?s2\<lparr>stopped := True\<rparr>)"
      using True by (simp add: pqBody_def Let_def)
    have c1: "pqCore mz (?s1\<lparr>stopped := True\<rparr>)" using pqCore_cong [OF core1] by simp
    have c2: "pqCore mz (?s2\<lparr>stopped := True\<rparr>)" using pqCore_cong [OF core2] by simp
    have i: "pqInv mz (pqBody mz h skip s)"
      unfolding e pqInv_def using c1 c2 fu True by simp
    have "pqMeasure (pqBody mz h skip s) < pqMeasure s"
      unfolding e pqMeasure_def using pop(2) ns by simp
    then show ?thesis using i by simp
  next
    case False
    have e: "pqBody mz h skip s = fold (pqRelax mz h ?u) [0, 1, 2, 3] ?s2"
      using False by (simp add: pqBody_def Let_def)
    have o0: "\<forall>u'. isCell mz u' \<and> dist s ! nat u' < INT_MAX \<and> u' \<noteq> ?u \<longrightarrow>
                   u' \<in> snd ` set (pqPop (pq s)) \<or> relaxedAt mz (dist s) u'"
    proof (intro allI impI)
      fix u' assume h: "isCell mz u' \<and> dist s ! nat u' < INT_MAX \<and> u' \<noteq> ?u"
      then have "u' \<in> snd ` set (pq s) \<or> relaxedAt mz (dist s) u'"
        using clo [rule_format, of u'] by simp
      then show "u' \<in> snd ` set (pqPop (pq s)) \<or> relaxedAt mz (dist s) u'"
      proof
        assume "u' \<in> snd ` set (pq s)"
        then have "u' \<in> snd ` set (pqPop (pq s))" using keep [of u'] h by simp
        then show ?thesis by simp
      next
        assume "relaxedAt mz (dist s) u'"
        then show ?thesis by simp
      qed
    qed
    have g0: "dist s ! nat (goalCell mz) < INT_MAX \<longrightarrow> goalCell mz \<in> snd ` set (pqPop (pq s))"
    proof
      assume "dist s ! nat (goalCell mz) < INT_MAX"
      then have "goalCell mz \<in> snd ` set (pq s)" using gp by simp
      then show "goalCell mz \<in> snd ` set (pqPop (pq s))"
        using keep [of "goalCell mz"] False by simp
    qed
    have m0: "pqMid mz ?u {} ?s2"
      unfolding pqMid_def using core2 ns cu fu o0 g0 by simp
    let ?a = "pqRelax mz h ?u 0 ?s2"
    let ?b = "pqRelax mz h ?u 1 ?a"
    let ?c = "pqRelax mz h ?u 2 ?b"
    let ?d = "pqRelax mz h ?u 3 ?c"
    have ma: "pqMid mz ?u {0} ?a"
      and ea: "nat (sum_list (dist ?a)) + length (pq ?a)
               \<le> nat (sum_list (dist s)) + length (pqPop (pq s))"
      using pqRelax_step [OF m0, of 0 h] by simp_all
    have mb: "pqMid mz ?u {1, 0} ?b"
      and eb: "nat (sum_list (dist ?b)) + length (pq ?b)
               \<le> nat (sum_list (dist ?a)) + length (pq ?a)"
      using pqRelax_step [OF ma, of 1 h] by simp_all
    have mc: "pqMid mz ?u {2, 1, 0} ?c"
      and ec: "nat (sum_list (dist ?c)) + length (pq ?c)
               \<le> nat (sum_list (dist ?b)) + length (pq ?b)"
      using pqRelax_step [OF mb, of 2 h] by simp_all
    have md: "pqMid mz ?u {3, 2, 1, 0} ?d"
      and ed: "nat (sum_list (dist ?d)) + length (pq ?d)
               \<le> nat (sum_list (dist ?c)) + length (pq ?c)"
      using pqRelax_step [OF mc, of 3 h] by simp_all
    have fd: "fold (pqRelax mz h ?u) [0, 1, 2, 3] ?s2 = ?d" by simp
    have "relaxedAt mz (dist ?d) ?u"
      unfolding relaxedAt_def adjacent_def Let_def using md unfolding pqMid_def by auto
    then have i: "pqInv mz ?d"
      using md unfolding pqMid_def pqInv_def by blast
    have nsd: "\<not> stopped ?d" using md unfolding pqMid_def by simp
    have "pqMeasure ?d < pqMeasure s"
      unfolding pqMeasure_def using ea eb ec ed pop(2) ns nsd by simp
    then show ?thesis unfolding e fd using i by simp
  qed
qed

lemma INT_MAX_pos: "0 < INT_MAX"
  by (simp add: INT_MAX_def)

lemma pqInv_init:
  assumes pos: "0 < mazeW mz" "0 < mazeH mz"
  shows "pqInv mz (pqInit mz h)"
proof -
  let ?N = "nat (mazeW mz * mazeH mz)"
  let ?d = "(replicate ?N INT_MAX)[0 := 0]"
  let ?p = "replicate ?N (- 1 :: int)"
  have N: "0 < ?N" using pos by simp
  have z: "isCell mz 0" using isCell_0 [OF pos] .
  have dn: "\<And>v. isCell mz v \<Longrightarrow> ?d ! nat v = (if v = 0 then 0 else INT_MAX)"
  proof -
    fix v assume v: "isCell mz v"
    then have "nat v < ?N" by (auto simp: isCell_def)
    moreover have "(0 = nat v) = (v = 0)" using v by (auto simp: isCell_def)
    ultimately show "?d ! nat v = (if v = 0 then 0 else INT_MAX)"
      using N by (simp add: nth_list_update)
  qed
  have pn: "\<And>v. isCell mz v \<Longrightarrow> ?p ! nat v = - 1" by (auto simp: isCell_def)
  have d0: "?d ! 0 = 0" using N by simp
  have p0: "?p ! 0 = - 1" using N by simp
  have l0: "labelled mz ?d 0"
    unfolding labelled_def using z d0 by (intro exI [of _ "[0]"]) simp
  have fin: "\<And>v. isCell mz v \<Longrightarrow> ?d ! nat v < INT_MAX \<Longrightarrow> v = 0"
    using dn by (auto split: if_splits)
  have 5: "\<forall>v. isCell mz v \<longrightarrow> 0 \<le> ?d ! nat v \<and> ?d ! nat v \<le> INT_MAX"
    using dn INT_MAX_pos by simp
  have 6: "\<forall>v. isCell mz v \<and> v \<noteq> 0 \<and> ?d ! nat v < INT_MAX \<longrightarrow>
             isCell mz (?p ! nat v) \<and> adjacent mz (?p ! nat v) v
             \<and> ?d ! nat (?p ! nat v) < ?d ! nat v"
    using fin by blast
  have 7: "\<forall>v. isCell mz v \<and> \<not> ?d ! nat v < INT_MAX \<longrightarrow> ?p ! nat v = - 1"
    using pn by blast
  have 8: "\<forall>v. isCell mz v \<and> ?d ! nat v < INT_MAX \<longrightarrow> labelled mz ?d v"
    using fin l0 by blast
  have 9: "\<forall>e \<in> set [(h 0, 0 :: int)]. isCell mz (snd e) \<and> ?d ! nat (snd e) < INT_MAX"
    using z d0 INT_MAX_pos by simp
  have core: "pqCore mz (pqInit mz h)"
    unfolding pqCore_def pqInit_def PQ_state.simps Search_state.simps
    using d0 p0 5 6 7 8 9 by (intro conjI) simp_all
  have c: "\<forall>u. isCell mz u \<and> ?d ! nat u < INT_MAX \<longrightarrow> u \<in> snd ` set [(h 0, 0 :: int)]"
    using fin by simp
  have g: "?d ! nat (goalCell mz) < INT_MAX \<longrightarrow> goalCell mz \<in> snd ` set [(h 0, 0 :: int)]"
    using fin [OF goalCell_isCell [OF pos]] by simp
  show ?thesis unfolding pqInv_def using core c g by (simp add: pqInit_def)
qed

lemma pqLoop_terminates:
  assumes pos: "0 < mazeW mz" "0 < mazeH mz"
  shows "\<exists>s. pqLoop mz h skip = Some s"
  unfolding pqLoop_def
proof (rule measure_while_option_Some [where P = "pqInv mz" and f = pqMeasure])
  show "pqInv mz (pqInit mz h)" using pqInv_init [OF pos] .
next
  fix s assume "pqInv mz s" and "pq s \<noteq> [] \<and> \<not> stopped s"
  then show "pqInv mz (pqBody mz h skip s) \<and> pqMeasure (pqBody mz h skip s) < pqMeasure s"
    using pqBody_step by blast
qed

lemma pqLoop_inv:
  assumes pos: "0 < mazeW mz" "0 < mazeH mz" and l: "pqLoop mz h skip = Some s"
  shows "pqInv mz s \<and> (pq s = [] \<or> stopped s)"
proof -
  have "pqInv mz s"
  proof (rule while_option_rule [where P = "pqInv mz", OF _ l [unfolded pqLoop_def]])
    show "pqInv mz (pqInit mz h)" using pqInv_init [OF pos] .
  next
    fix s assume "pqInv mz s" and "pq s \<noteq> [] \<and> \<not> stopped s"
    then show "pqInv mz (pqBody mz h skip s)" using pqBody_step by blast
  qed
  moreover have "pq s = [] \<or> stopped s"
    using while_option_stop [OF l [unfolded pqLoop_def]] by blast
  ultimately show ?thesis by simp
qed

subsection \<open>What the searches draw\<close>

lemma parentChain_simplePath:
  assumes "parentChain mz par v p"
  shows "simplePath mz 0 v (rev p)"
proof -
  have "successively (\<lambda>a b. adjacent mz b a) p"
  proof (rule successively_cong_set [of "\<lambda>a b. par ! nat a = b \<and> adjacent mz b a"])
    show "successively (\<lambda>a b. par ! nat a = b \<and> adjacent mz b a) p"
      using assms unfolding parentChain_def by simp
  qed simp
  then show ?thesis
    using assms unfolding parentChain_def simplePath_def
    by (simp add: hd_rev last_rev)
qed

lemma cells_card: "card {x. isCell mz x} = nat (mazeW mz * mazeH mz)"
proof -
  have "{x. isCell mz x} = {0..<mazeW mz * mazeH mz}" by (auto simp: isCell_def)
  then show ?thesis by simp
qed

lemma cells_finite: "finite {x. isCell mz x}"
proof -
  have "{x. isCell mz x} = {0..<mazeW mz * mazeH mz}" by (auto simp: isCell_def)
  then show ?thesis by simp
qed

lemma label_bound:
  assumes core: "pqCore mz s" and cv: "isCell mz v" and fv: "dist s ! nat v < INT_MAX"
  shows "dist s ! nat v + 1 \<le> mazeW mz * mazeH mz"
    and "dist s ! nat v + 1 = mazeW mz * mazeH mz \<Longrightarrow> isCell mz x
          \<Longrightarrow> dist s ! nat x < mazeW mz * mazeH mz"
proof -
  have "labelled mz (dist s) v" using core cv fv unfolding pqCore_def by blast
  then obtain p where p: "distinct p" "\<forall>x \<in> set p. isCell mz x"
    "int (length p) = dist s ! nat v + 1" "\<forall>i < length p. dist s ! nat (p ! i) \<le> int i"
    unfolding labelled_def by blast
  have sub: "set p \<subseteq> {x. isCell mz x}" using p(2) by blast
  have "card (set p) \<le> card {x. isCell mz x}" using card_mono [OF cells_finite sub] .
  then have le: "length p \<le> nat (mazeW mz * mazeH mz)"
    using distinct_card [OF p(1)] cells_card by simp
  have Npos: "0 < mazeW mz * mazeH mz" using cv by (auto simp: isCell_def)
  show "dist s ! nat v + 1 \<le> mazeW mz * mazeH mz" using p(3) le Npos by linarith
  assume full: "dist s ! nat v + 1 = mazeW mz * mazeH mz" and cx: "isCell mz x"
  then have "card (set p) = card {x. isCell mz x}"
    using distinct_card [OF p(1)] cells_card p(3) by simp
  then have "set p = {x. isCell mz x}" using card_subset_eq [OF cells_finite sub] by simp
  then have "x \<in> set p" using cx by simp
  then obtain i where i: "i < length p" "p ! i = x" by (auto simp: in_set_conv_nth)
  then have "dist s ! nat x \<le> int i" using p(4) by auto
  then show "dist s ! nat x < mazeW mz * mazeH mz" using i(1) p(3) full by linarith
qed

lemma pqLoop_goal:
  assumes pos: "0 < mazeW mz" "0 < mazeH mz" and l: "pqLoop mz h skip = Some s"
    and conn: "connectedMaze mz" and fits: "mazeW mz * mazeH mz \<le> INT_MAX"
  shows "dist s ! nat (goalCell mz) < INT_MAX"
proof -
  have inv: "pqInv mz s" and ex: "pq s = [] \<or> stopped s"
    using pqLoop_inv [OF pos l] by auto
  have core: "pqCore mz s" using inv unfolding pqInv_def by simp
  show ?thesis
  proof (cases "stopped s")
    case True
    then show ?thesis using inv unfolding pqInv_def by simp
  next
    case False
    then have emp: "pq s = []" using ex by simp
    have rel: "\<And>u. isCell mz u \<Longrightarrow> dist s ! nat u < INT_MAX \<Longrightarrow> relaxedAt mz (dist s) u"
      using inv False emp unfolding pqInv_def by simp
    have stp: "\<And>u v. isCell mz u \<Longrightarrow> dist s ! nat u < INT_MAX \<Longrightarrow> adjacent mz u v
                  \<Longrightarrow> dist s ! nat v < INT_MAX"
    proof -
      fix u v assume cu: "isCell mz u" and fu: "dist s ! nat u < INT_MAX" and a: "adjacent mz u v"
      have r: "dist s ! nat v \<le> dist s ! nat u + 1"
        using rel [OF cu fu] a unfolding relaxedAt_def by blast
      have cv: "isCell mz v" using adjacent_isCell(2) [OF a] .
      show "dist s ! nat v < INT_MAX"
      proof (cases "dist s ! nat u + 1 = mazeW mz * mazeH mz")
        case True
        then show ?thesis using label_bound(2) [OF core cu fu True cv] fits by simp
      next
        case False
        then show ?thesis using label_bound(1) [OF core cu fu] r fits by simp
      qed
    qed
    have "(adjacent mz)\<^sup>*\<^sup>* 0 (goalCell mz)"
      using conn goalCell_isCell [OF pos] unfolding connectedMaze_def by blast
    then have "isCell mz (goalCell mz) \<and> dist s ! nat (goalCell mz) < INT_MAX"
    proof (induction rule: rtranclp_induct)
      case base
      have "dist s ! 0 = 0" using core unfolding pqCore_def by simp
      then show ?case using isCell_0 [OF pos] INT_MAX_pos by simp
    next
      case (step y z)
      then show ?case using stp [of y z] adjacent_isCell(2) [of mz y z] by blast
    qed
    then show ?thesis by simp
  qed
qed

text \<open>The parent links of \<open>runPQ\<close> lead from every reached cell to the start.\<close>

lemma pq_chain:
  assumes core: "pqCore mz s"
  shows "isCell mz v \<Longrightarrow> dist s ! nat v < INT_MAX \<Longrightarrow>
         \<exists>p. parentChain mz (parentOf s) v p \<and> (\<forall>x \<in> set p. dist s ! nat x \<le> dist s ! nat v)"
proof (induction "nat (dist s ! nat v)" arbitrary: v rule: less_induct)
  case less
  have p0: "parentOf s ! 0 = - 1" using core unfolding pqCore_def by simp
  show ?case
  proof (cases "v = 0")
    case True
    have "parentChain mz (parentOf s) 0 [0]"
      unfolding parentChain_def using p0 less.prems(1) True by simp
    then show ?thesis using True by (intro exI [of _ "[0]"]) simp
  next
    case False
    let ?u = "parentOf s ! nat v"
    have u: "isCell mz ?u" "adjacent mz ?u v" "dist s ! nat ?u < dist s ! nat v"
      using core less.prems False unfolding pqCore_def by blast+
    have "0 \<le> dist s ! nat ?u" using core u(1) unfolding pqCore_def by blast
    then have m: "nat (dist s ! nat ?u) < nat (dist s ! nat v)" using u(3) by simp
    have fu: "dist s ! nat ?u < INT_MAX" using u(3) less.prems(2) by simp
    from less.hyps [OF m u(1) fu] obtain p where
      p: "parentChain mz (parentOf s) ?u p" "\<forall>x \<in> set p. dist s ! nat x \<le> dist s ! nat ?u"
      by blast
    have vn: "v \<notin> set p" using p(2) u(3) by auto
    have c: "parentChain mz (parentOf s) v (v # p)"
      using p(1) vn u(2) less.prems(1) unfolding parentChain_def
      by (simp add: successively_Cons)
    have "\<forall>x \<in> set (v # p). dist s ! nat x \<le> dist s ! nat v" using p(2) u(3) by auto
    then show ?thesis using c by blast
  qed
qed

text \<open>On a connected maze every search draws a simple path from the start to the goal.\<close>

lemma runDFS_path:
  assumes pos: "0 < mazeW mz" "0 < mazeH mz" and conn: "connectedMaze mz"
  shows "\<exists>p. runDFS mz = Some p \<and> simplePath mz 0 (goalCell mz) (rev p)"
proof -
  from dfsLoop_terminates [OF pos] obtain s where s: "dfsLoop mz = Some s" by blast
  have g: "goalCell mz \<in> visitedSet s" using dfsLoop_goal [OF pos s conn] .
  have "treeInv mz (visitedSet s) (parentOf s)"
    using dfsLoop_inv [OF pos s] unfolding dfsInv_def by simp
  then obtain p where p: "parentChain mz (parentOf s) (goalCell mz) p"
    using g unfolding treeInv_def by blast
  have "runDFS mz = Some p" unfolding runDFS_def using s drawFinalPath_chain [OF p] by simp
  then show ?thesis using parentChain_simplePath [OF p] by blast
qed

lemma runBFS_path:
  assumes pos: "0 < mazeW mz" "0 < mazeH mz" and conn: "connectedMaze mz"
  shows "\<exists>p. runBFS mz = Some p \<and> simplePath mz 0 (goalCell mz) (rev p)"
proof -
  from bfsLoop_terminates [OF pos] obtain s where s: "bfsLoop mz = Some s" by blast
  have g: "goalCell mz \<in> visitedSet s" using bfsLoop_goal [OF pos s conn] .
  have "treeInv mz (visitedSet s) (parentOf s)"
    using bfsLoop_inv [OF pos s] unfolding bfsInv_def by simp
  then obtain p where p: "parentChain mz (parentOf s) (goalCell mz) p"
    using g unfolding treeInv_def by blast
  have "runBFS mz = Some p" unfolding runBFS_def using s drawFinalPath_chain [OF p] by simp
  then show ?thesis using parentChain_simplePath [OF p] by blast
qed

lemma runPQ_path:
  assumes pos: "0 < mazeW mz" "0 < mazeH mz" and conn: "connectedMaze mz"
    and fits: "mazeW mz * mazeH mz \<le> INT_MAX"
  shows "\<exists>p. runPQ mz h skip = Some p \<and> simplePath mz 0 (goalCell mz) (rev p)"
proof -
  from pqLoop_terminates [OF pos] obtain s where s: "pqLoop mz h skip = Some s" by blast
  have g: "dist s ! nat (goalCell mz) < INT_MAX" using pqLoop_goal [OF pos s conn fits] .
  have core: "pqCore mz s" using pqLoop_inv [OF pos s] unfolding pqInv_def by simp
  from pq_chain [OF core goalCell_isCell [OF pos] g]
  obtain p where p: "parentChain mz (parentOf s) (goalCell mz) p" by blast
  have "runPQ mz h skip = Some p" unfolding runPQ_def using s drawFinalPath_chain [OF p] by simp
  then show ?thesis using parentChain_simplePath [OF p] by blast
qed

text \<open>When a loop ends without its \<open>break\<close>, the goal has no parent and is drawn alone.\<close>

lemma drawFinalPath_single:
  assumes "par ! nat g = - 1" and "g \<noteq> - 1"
  shows "drawFinalPath par g = Some [g]"
  unfolding drawFinalPath_def
  apply (subst while_option_unfold)
  apply (simp add: assms)
  apply (subst while_option_unfold)
  apply simp
  done

lemma goalCell_not_minus1: "0 < mazeW mz \<Longrightarrow> 0 < mazeH mz \<Longrightarrow> goalCell mz \<noteq> - 1"
  using goalCell_isCell [of mz] by (auto simp: isCell_def)

lemma runDFS_unreached:
  assumes pos: "0 < mazeW mz" "0 < mazeH mz" and l: "dfsLoop mz = Some s" and ns: "\<not> stopped s"
  shows "runDFS mz = Some [goalCell mz]"
proof -
  have inv: "dfsInv mz s" and "stk s = []" using dfsLoop_inv [OF pos l] ns by auto
  then have "goalCell mz \<notin> visitedSet s" using ns unfolding dfsInv_def by auto
  then have "parentOf s ! nat (goalCell mz) = - 1"
    using inv goalCell_isCell [OF pos] unfolding dfsInv_def treeInv_def by blast
  then show ?thesis
    unfolding runDFS_def using l drawFinalPath_single goalCell_not_minus1 [OF pos] by simp
qed

lemma runBFS_unreached:
  assumes pos: "0 < mazeW mz" "0 < mazeH mz" and l: "bfsLoop mz = Some s" and ns: "\<not> stopped s"
  shows "runBFS mz = Some [goalCell mz]"
proof -
  have inv: "bfsInv mz s" and "que s = []" using bfsLoop_inv [OF pos l] ns by auto
  then have "goalCell mz \<notin> visitedSet s" using ns unfolding bfsInv_def by auto
  then have "parentOf s ! nat (goalCell mz) = - 1"
    using inv goalCell_isCell [OF pos] unfolding bfsInv_def treeInv_def by blast
  then show ?thesis
    unfolding runBFS_def using l drawFinalPath_single goalCell_not_minus1 [OF pos] by simp
qed

lemma runPQ_unreached:
  assumes pos: "0 < mazeW mz" "0 < mazeH mz" and l: "pqLoop mz h skip = Some s"
    and ns: "\<not> stopped s"
  shows "runPQ mz h skip = Some [goalCell mz]"
proof -
  have inv: "pqInv mz s" and "pq s = []" using pqLoop_inv [OF pos l] ns by auto
  then have "\<not> dist s ! nat (goalCell mz) < INT_MAX" using ns unfolding pqInv_def by auto
  then have "parentOf s ! nat (goalCell mz) = - 1"
    using inv goalCell_isCell [OF pos] unfolding pqInv_def pqCore_def by blast
  then show ?thesis
    unfolding runPQ_def using l drawFinalPath_single goalCell_not_minus1 [OF pos] by simp
qed

subsection \<open>Termination\<close>



subsection \<open>A goal that cannot be reached\<close>

lemma closedMaze_dfs: "map_option stopped (dfsLoop closedMaze) = Some False"
  by code_simp

lemma closedMaze_bfs: "map_option stopped (bfsLoop closedMaze) = Some False"
  by code_simp

lemma closedMaze_dijkstra: "map_option stopped (pqLoop closedMaze zeroH True) = Some False"
  by code_simp

lemma closedMaze_astar:
  "map_option stopped (pqLoop closedMaze (manH (mazeW closedMaze) (mazeH closedMaze)) False)
   = Some False"
  by code_simp

text \<open>
  C4 as stated fails: the program has no \<open>GoalUnreachable\<close> report. On the maze of two
  cells side by side with the wall between them standing, every search empties its frontier
  without taking the \<open>break\<close> at the goal, and the run still calls \<open>drawFinalPath\<close>, which
  stars the goal cell 1 alone: a list that does not begin at the start cell 0.
\<close>

theorem unreachable_goal_counterexample:
  "map_option stopped (dfsLoop closedMaze) = Some False
   \<and> map_option stk (dfsLoop closedMaze) = Some []
   \<and> runDFS closedMaze = Some [1]
   \<and> map_option stopped (bfsLoop closedMaze) = Some False
   \<and> map_option que (bfsLoop closedMaze) = Some []
   \<and> runBFS closedMaze = Some [1]
   \<and> map_option stopped (pqLoop closedMaze zeroH True) = Some False
   \<and> map_option pq (pqLoop closedMaze zeroH True) = Some []
   \<and> runDijkstra closedMaze True = Some [1]
   \<and> map_option stopped (pqLoop closedMaze (manH 2 1) True) = Some False
   \<and> map_option pq (pqLoop closedMaze (manH 2 1) True) = Some []
   \<and> runAStar closedMaze True = Some [1]"
  by code_simp

text \<open>
  C4, amended. On every maze whose grids have the declared, positive dimensions, each search
  loop ends; when it ends without the \<open>break\<close> at the goal, its frontier is empty and the run
  reports nothing: it calls \<open>drawFinalPath\<close>, which stars the goal cell alone.
\<close>

theorem unreachable_goal_drawn:
  assumes "wfMaze mz" and "0 < mazeW mz" "0 < mazeH mz"
    and "mazeW mz * mazeH mz + mazeW mz + mazeH mz \<le> INT_MAX"
  shows "\<exists>sd sb sj sa. dfsLoop mz = Some sd \<and> bfsLoop mz = Some sb
           \<and> pqLoop mz zeroH skipD = Some sj
           \<and> pqLoop mz (manH (mazeW mz) (mazeH mz)) skipA = Some sa
           \<and> (\<not> stopped sd \<longrightarrow> stk sd = [] \<and> runDFS mz = Some [goalCell mz])
           \<and> (\<not> stopped sb \<longrightarrow> que sb = [] \<and> runBFS mz = Some [goalCell mz])
           \<and> (\<not> stopped sj \<longrightarrow> pq sj = [] \<and> runDijkstra mz skipD = Some [goalCell mz])
           \<and> (\<not> stopped sa \<longrightarrow> pq sa = [] \<and> runAStar mz skipA = Some [goalCell mz])"
proof -
  note pos = assms(2,3)
  let ?h = "manH (mazeW mz) (mazeH mz)"
  from dfsLoop_terminates [OF pos] obtain sd where sd: "dfsLoop mz = Some sd" by (elim exE)
  from bfsLoop_terminates [OF pos] obtain sb where sb: "bfsLoop mz = Some sb" by (elim exE)
  from pqLoop_terminates [OF pos, of zeroH skipD] obtain sj where
    sj: "pqLoop mz zeroH skipD = Some sj" by (elim exE)
  from pqLoop_terminates [OF pos, of ?h skipA] obtain sa where
    sa: "pqLoop mz ?h skipA = Some sa" by (elim exE)
  have d: "\<not> stopped sd \<longrightarrow> stk sd = [] \<and> runDFS mz = Some [goalCell mz]"
    using dfsLoop_inv [OF pos sd] runDFS_unreached [OF pos sd] by auto
  have b: "\<not> stopped sb \<longrightarrow> que sb = [] \<and> runBFS mz = Some [goalCell mz]"
    using bfsLoop_inv [OF pos sb] runBFS_unreached [OF pos sb] by auto
  have j: "\<not> stopped sj \<longrightarrow> pq sj = [] \<and> runDijkstra mz skipD = Some [goalCell mz]"
    unfolding runDijkstra_def using pqLoop_inv [OF pos sj] runPQ_unreached [OF pos sj] by auto
  have a: "\<not> stopped sa \<longrightarrow> pq sa = [] \<and> runAStar mz skipA = Some [goalCell mz]"
    unfolding runAStar_def using pqLoop_inv [OF pos sa] runPQ_unreached [OF pos sa] by auto
  show ?thesis
    apply (rule exI [of _ sd], rule exI [of _ sb], rule exI [of _ sj], rule exI [of _ sa])
    using sd sb sj sa d b j a by simp
qed

theorem unreachable_goal_drawn_witness:
  "\<exists>sd sb sj sa. dfsLoop closedMaze = Some sd \<and> bfsLoop closedMaze = Some sb
           \<and> pqLoop closedMaze zeroH True = Some sj
           \<and> pqLoop closedMaze (manH (mazeW closedMaze) (mazeH closedMaze)) False = Some sa
           \<and> \<not> stopped sd \<and> stk sd = [] \<and> runDFS closedMaze = Some [goalCell closedMaze]
           \<and> \<not> stopped sb \<and> que sb = [] \<and> runBFS closedMaze = Some [goalCell closedMaze]
           \<and> \<not> stopped sj \<and> pq sj = [] \<and> runDijkstra closedMaze True = Some [goalCell closedMaze]
           \<and> \<not> stopped sa \<and> pq sa = [] \<and> runAStar closedMaze False = Some [goalCell closedMaze]"
proof -
  have h: "wfMaze closedMaze" "0 < mazeW closedMaze" "0 < mazeH closedMaze"
    "mazeW closedMaze * mazeH closedMaze + mazeW closedMaze + mazeH closedMaze \<le> INT_MAX"
    by (simp_all add: closedMaze_def wfMaze_def INT_MAX_def)
  from unreachable_goal_drawn [OF h, of True False] obtain sd sb sj sa where
    l: "dfsLoop closedMaze = Some sd" "bfsLoop closedMaze = Some sb"
      "pqLoop closedMaze zeroH True = Some sj"
      "pqLoop closedMaze (manH (mazeW closedMaze) (mazeH closedMaze)) False = Some sa"
    and i: "\<not> stopped sd \<longrightarrow> stk sd = [] \<and> runDFS closedMaze = Some [goalCell closedMaze]"
      "\<not> stopped sb \<longrightarrow> que sb = [] \<and> runBFS closedMaze = Some [goalCell closedMaze]"
      "\<not> stopped sj \<longrightarrow> pq sj = [] \<and> runDijkstra closedMaze True = Some [goalCell closedMaze]"
      "\<not> stopped sa \<longrightarrow> pq sa = [] \<and> runAStar closedMaze False = Some [goalCell closedMaze]"
    by (elim exE conjE)
  have n: "\<not> stopped sd" "\<not> stopped sb" "\<not> stopped sj" "\<not> stopped sa"
    using closedMaze_dfs closedMaze_bfs closedMaze_dijkstra
      closedMaze_astar l by simp_all
  show ?thesis
    apply (rule exI [of _ sd], rule exI [of _ sb], rule exI [of _ sj], rule exI [of _ sa])
    using l i n by simp
qed

section \<open>Simple paths in a graph\<close>

lemma rtranclp_sym:
  assumes "symp R" and "R\<^sup>*\<^sup>* x y"
  shows "R\<^sup>*\<^sup>* y x"
  using assms(2)
proof (induction rule: rtranclp_induct)
  case base
  then show ?case by simp
next
  case (step y z)
  have "R z y" using assms(1) step(2) by (simp add: sympD)
  then show ?case using step(3) by (simp add: converse_rtranclp_into_rtranclp)
qed

lemma withEdge_mono: "R\<^sup>*\<^sup>* x y \<Longrightarrow> (withEdge R a b)\<^sup>*\<^sup>* x y"
proof (induction rule: rtranclp_induct)
  case base
  then show ?case by simp
next
  case (step y z)
  have "withEdge R a b y z" using step(2) by (simp add: withEdge_def)
  then show ?case using step(3) by simp
qed

lemma withEdge_reach:
  shows "(withEdge R a b)\<^sup>*\<^sup>* x y \<longleftrightarrow>
         R\<^sup>*\<^sup>* x y \<or> (R\<^sup>*\<^sup>* x a \<and> R\<^sup>*\<^sup>* b y) \<or> (R\<^sup>*\<^sup>* x b \<and> R\<^sup>*\<^sup>* a y)"
proof
  assume "(withEdge R a b)\<^sup>*\<^sup>* x y"
  then show "R\<^sup>*\<^sup>* x y \<or> (R\<^sup>*\<^sup>* x a \<and> R\<^sup>*\<^sup>* b y) \<or> (R\<^sup>*\<^sup>* x b \<and> R\<^sup>*\<^sup>* a y)"
  proof (induction rule: rtranclp_induct)
    case base
    then show ?case by simp
  next
    case (step y z)
    have r: "R\<^sup>*\<^sup>* a a" "R\<^sup>*\<^sup>* b b" by simp_all
    from step(2) consider "R y z" | "y = a \<and> z = b" | "y = b \<and> z = a"
      unfolding withEdge_def by blast
    then show ?case
    proof cases
      case 1
      from step(3) consider "R\<^sup>*\<^sup>* x y" | "R\<^sup>*\<^sup>* x a \<and> R\<^sup>*\<^sup>* b y" | "R\<^sup>*\<^sup>* x b \<and> R\<^sup>*\<^sup>* a y"
        by blast
      then show ?thesis
      proof cases
        case 1
        then have "R\<^sup>*\<^sup>* x z" using \<open>R y z\<close> by (rule rtranclp.rtrancl_into_rtrancl)
        then show ?thesis by simp
      next
        case 2
        then have "R\<^sup>*\<^sup>* b z" using \<open>R y z\<close> rtranclp.rtrancl_into_rtrancl [of R b y z] by simp
        then show ?thesis using 2 by simp
      next
        case 3
        then have "R\<^sup>*\<^sup>* a z" using \<open>R y z\<close> rtranclp.rtrancl_into_rtrancl [of R a y z] by simp
        then show ?thesis using 3 by simp
      qed
    next
      case 2
      from step(3) have "R\<^sup>*\<^sup>* x a \<or> R\<^sup>*\<^sup>* x b" using 2 by auto
      then show ?thesis using 2 r by auto
    next
      case 3
      from step(3) have "R\<^sup>*\<^sup>* x a \<or> R\<^sup>*\<^sup>* x b" using 3 by auto
      then show ?thesis using 3 r by auto
    qed
  qed
next
  have ab: "(withEdge R a b)\<^sup>*\<^sup>* a b" "(withEdge R a b)\<^sup>*\<^sup>* b a"
    by (simp_all add: withEdge_def r_into_rtranclp)
  assume "R\<^sup>*\<^sup>* x y \<or> (R\<^sup>*\<^sup>* x a \<and> R\<^sup>*\<^sup>* b y) \<or> (R\<^sup>*\<^sup>* x b \<and> R\<^sup>*\<^sup>* a y)"
  then consider "R\<^sup>*\<^sup>* x y" | "R\<^sup>*\<^sup>* x a \<and> R\<^sup>*\<^sup>* b y" | "R\<^sup>*\<^sup>* x b \<and> R\<^sup>*\<^sup>* a y" by blast
  then show "(withEdge R a b)\<^sup>*\<^sup>* x y"
  proof cases
    case 1
    then show ?thesis by (rule withEdge_mono)
  next
    case 2
    then have "(withEdge R a b)\<^sup>*\<^sup>* x a" "(withEdge R a b)\<^sup>*\<^sup>* b y"
      using withEdge_mono [of R x a a b] withEdge_mono [of R b y a b] by simp_all
    then show ?thesis
      using ab(1) rtranclp_trans [of "withEdge R a b" x a b] rtranclp_trans [of "withEdge R a b" x b y]
      by simp
  next
    case 3
    then have "(withEdge R a b)\<^sup>*\<^sup>* x b" "(withEdge R a b)\<^sup>*\<^sup>* a y"
      using withEdge_mono [of R x b a b] withEdge_mono [of R a y a b] by simp_all
    then show ?thesis
      using ab(2) rtranclp_trans [of "withEdge R a b" x b a] rtranclp_trans [of "withEdge R a b" x a y]
      by simp
  qed
qed

lemma path_reach:
  assumes "successively R p" and "p \<noteq> []"
  shows "R\<^sup>*\<^sup>* (hd p) (last p)"
  using assms
proof (induction p)
  case Nil
  then show ?case by simp
next
  case (Cons x p)
  show ?case
  proof (cases p)
    case Nil
    then show ?thesis by simp
  next
    case (Cons y r)
    then have "R x (hd p)" "successively R p" "p \<noteq> []" using Cons.prems by simp_all
    then have "R x (hd p)" "R\<^sup>*\<^sup>* (hd p) (last p)" using Cons.IH by simp_all
    then show ?thesis using Cons by (simp add: converse_rtranclp_into_rtranclp)
  qed
qed

lemma sp_reach: "sp R a b p \<Longrightarrow> R\<^sup>*\<^sup>* a b"
  unfolding sp_def using path_reach by blast

text \<open>Connected vertices are joined by a simple path.\<close>

lemma reach_sp:
  assumes "R\<^sup>*\<^sup>* a b"
  shows "\<exists>p. sp R a b p"
  using assms
proof (induction rule: converse_rtranclp_induct)
  case base
  have "sp R b b [b]" by (simp add: sp_def)
  then show ?case by blast
next
  case (step a c)
  then obtain p where p: "sp R c b p" by blast
  show ?case
  proof (cases "a \<in> set p")
    case True
    then obtain xs ys where s: "p = xs @ a # ys" by (meson split_list)
    have "successively R (a # ys)" using p unfolding sp_def s
      by (simp add: successively_append_iff)
    moreover have "distinct (a # ys)" "last (a # ys) = b" using p unfolding sp_def s by auto
    ultimately have "sp R a b (a # ys)" by (simp add: sp_def)
    then show ?thesis by blast
  next
    case False
    have "sp R a b (a # p)" using p False step(1) unfolding sp_def
      by (simp add: successively_Cons)
    then show ?thesis by blast
  qed
qed

lemma split_new_edge:
  assumes "successively (withEdge R a b) p" and "\<not> successively R p"
  shows "\<exists>xs x y ys. p = xs @ x # y # ys \<and> ((x = a \<and> y = b) \<or> (x = b \<and> y = a))"
  using assms
proof (induction p)
  case Nil
  then show ?case by simp
next
  case (Cons x p)
  show ?case
  proof (cases p)
    case Nil
    then show ?thesis using Cons.prems by simp
  next
    case c: (Cons y zs)
    show ?thesis
    proof (cases "R x y")
      case True
      then have "\<not> successively R p" using Cons.prems(2) c by simp
      moreover have "successively (withEdge R a b) p" using Cons.prems(1) c by simp
      ultimately obtain xs x' y' ys where
        e: "p = xs @ x' # y' # ys" "(x' = a \<and> y' = b) \<or> (x' = b \<and> y' = a)"
        using Cons.IH by blast
      then have "x # p = (x # xs) @ x' # y' # ys" by simp
      then show ?thesis using e(2) by blast
    next
      case False
      then have "(x = a \<and> y = b) \<or> (x = b \<and> y = a)"
        using Cons.prems(1) c by (simp add: withEdge_def)
      moreover have "x # p = [] @ x # y # zs" using c by simp
      ultimately show ?thesis by blast
    qed
  qed
qed

lemma no_new_edge:
  assumes "successively (withEdge R a b) p" and "a \<notin> set p \<or> b \<notin> set p"
  shows "successively R p"
proof (rule successively_cong_set [OF assms(1)])
  fix x y assume "x \<in> set p" "y \<in> set p" "withEdge R a b x y"
  then show "R x y" using assms(2) unfolding withEdge_def by auto
qed

lemma decompose_path:
  assumes w: "successively (withEdge R a b) p" and d: "distinct p" and n: "\<not> successively R p"
  shows "\<exists>p1 p2. p = p1 @ p2 \<and> p1 \<noteq> [] \<and> p2 \<noteq> []
           \<and> ((last p1 = a \<and> hd p2 = b) \<or> (last p1 = b \<and> hd p2 = a))
           \<and> successively R p1 \<and> successively R p2"
proof -
  from split_new_edge [OF w n] obtain xs x y ys where
    e: "p = xs @ x # y # ys" and xy: "(x = a \<and> y = b) \<or> (x = b \<and> y = a)" by blast
  let ?p1 = "xs @ [x]" and ?p2 = "y # ys"
  have p: "p = ?p1 @ ?p2" using e by simp
  have w1: "successively (withEdge R a b) ?p1" and w2: "successively (withEdge R a b) ?p2"
    using w unfolding p by (simp_all add: successively_append_iff)
  have d1: "y \<notin> set ?p1" and d2: "x \<notin> set ?p2" using d unfolding e by auto
  have "a \<notin> set ?p1 \<or> b \<notin> set ?p1" using xy d1 by blast
  then have r1: "successively R ?p1" using no_new_edge [OF w1] by blast
  have "a \<notin> set ?p2 \<or> b \<notin> set ?p2" using xy d2 by blast
  then have r2: "successively R ?p2" using no_new_edge [OF w2] by blast
  have "(last ?p1 = a \<and> hd ?p2 = b) \<or> (last ?p1 = b \<and> hd ?p2 = a)" using xy by simp
  then show ?thesis using p r1 r2 by blast
qed

text \<open>Joining two components by one edge keeps simple paths unique.\<close>

lemma uniquePaths_withEdge:
  assumes s: "symp R" and u: "uniquePaths R" and nc: "\<not> R\<^sup>*\<^sup>* a b"
  shows "uniquePaths (withEdge R a b)"
  unfolding uniquePaths_def
proof (intro allI impI)
  fix s t p q
  assume h: "sp (withEdge R a b) s t p \<and> sp (withEdge R a b) s t q"
  then have p: "p \<noteq> []" "hd p = s" "last p = t" "distinct p" "successively (withEdge R a b) p"
    and q: "q \<noteq> []" "hd q = s" "last q = t" "distinct q" "successively (withEdge R a b) q"
    unfolding sp_def by auto
  have ncb: "\<not> R\<^sup>*\<^sup>* b a" using nc rtranclp_sym [OF s] by blast
  text \<open>A path that uses the new edge against one that does not: impossible.\<close>
  have mixed: "\<And>p q. p \<noteq> [] \<Longrightarrow> hd p = s \<Longrightarrow> last p = t \<Longrightarrow> successively R p
                 \<Longrightarrow> q \<noteq> [] \<Longrightarrow> hd q = s \<Longrightarrow> last q = t \<Longrightarrow> distinct q
                 \<Longrightarrow> successively (withEdge R a b) q \<Longrightarrow> \<not> successively R q \<Longrightarrow> False"
  proof -
    fix p q
    assume p: "p \<noteq> []" "hd p = s" "last p = t" "successively R p"
      and q: "q \<noteq> []" "hd q = s" "last q = t" "distinct q"
        "successively (withEdge R a b) q" "\<not> successively R q"
    from decompose_path [OF q(5) q(4) q(6)] obtain q1 q2 where
      e: "q = q1 @ q2" "q1 \<noteq> []" "q2 \<noteq> []"
      "(last q1 = a \<and> hd q2 = b) \<or> (last q1 = b \<and> hd q2 = a)"
      "successively R q1" "successively R q2" by blast
    have st: "R\<^sup>*\<^sup>* s t" using path_reach [OF p(4) p(1)] p(2,3) by simp
    have "hd q1 = s" "last q2 = t" using q(2,3) e(1,2,3) by simp_all
    then have 1: "R\<^sup>*\<^sup>* s (last q1)" and 2: "R\<^sup>*\<^sup>* (hd q2) t"
      using path_reach [OF e(5) e(2)] path_reach [OF e(6) e(3)] by simp_all
    have "R\<^sup>*\<^sup>* (last q1) s" using rtranclp_sym [OF s 1] .
    moreover have "R\<^sup>*\<^sup>* t (hd q2)" using rtranclp_sym [OF s 2] .
    ultimately have "R\<^sup>*\<^sup>* (last q1) (hd q2)"
      using st rtranclp_trans [of R "last q1" s t] rtranclp_trans [of R "last q1" t "hd q2"]
      by simp
    then show False using e(4) nc ncb by auto
  qed
  show "p = q"
  proof (cases "successively R p")
    case True
    note rp = True
    show ?thesis
    proof (cases "successively R q")
      case True
      have "sp R s t p" "sp R s t q" using p q rp True unfolding sp_def by simp_all
      then show ?thesis using u unfolding uniquePaths_def by blast
    next
      case False
      then show ?thesis using mixed [OF p(1,2,3) rp q(1,2,3,4,5)] by blast
    qed
  next
    case False
    note np = False
    show ?thesis
    proof (cases "successively R q")
      case True
      then show ?thesis using mixed [OF q(1,2,3) True p(1,2,3,4,5)] np by blast
    next
      case False
      from decompose_path [OF p(5) p(4) np] obtain p1 p2 where
        ep: "p = p1 @ p2" "p1 \<noteq> []" "p2 \<noteq> []"
        "(last p1 = a \<and> hd p2 = b) \<or> (last p1 = b \<and> hd p2 = a)"
        "successively R p1" "successively R p2" by blast
      from decompose_path [OF q(5) q(4) False] obtain q1 q2 where
        eq: "q = q1 @ q2" "q1 \<noteq> []" "q2 \<noteq> []"
        "(last q1 = a \<and> hd q2 = b) \<or> (last q1 = b \<and> hd q2 = a)"
        "successively R q1" "successively R q2" by blast
      have hp: "hd p1 = s" "last p2 = t" using p(2,3) ep(1,2,3) by simp_all
      have hq: "hd q1 = s" "last q2 = t" using q(2,3) eq(1,2,3) by simp_all
      have dp: "distinct p1" "distinct p2" using p(4) ep(1) by simp_all
      have dq: "distinct q1" "distinct q2" using q(4) eq(1) by simp_all
      have r1: "R\<^sup>*\<^sup>* s (last p1)" using path_reach [OF ep(5) ep(2)] hp by simp
      have r2: "R\<^sup>*\<^sup>* s (last q1)" using path_reach [OF eq(5) eq(2)] hq by simp
      have same: "last p1 = last q1"
      proof (rule ccontr)
        assume ne: "last p1 \<noteq> last q1"
        have "R\<^sup>*\<^sup>* (last p1) s" using rtranclp_sym [OF s r1] .
        then have "R\<^sup>*\<^sup>* (last p1) (last q1)"
          using r2 rtranclp_trans [of R "last p1" s "last q1"] by simp
        then show False using ne ep(4) eq(4) nc ncb by auto
      qed
      then have same2: "hd p2 = hd q2" using ep(4) eq(4) nc by auto
      have "sp R s (last p1) p1" "sp R s (last p1) q1"
        using ep(2,5) eq(2,5) hp hq dp dq same unfolding sp_def by simp_all
      then have e1: "p1 = q1" using u unfolding uniquePaths_def by blast
      have "sp R (hd p2) t p2" "sp R (hd p2) t q2"
        using ep(3,6) eq(3,6) hp hq dp dq same2 unfolding sp_def by simp_all
      then have e2: "p2 = q2" using u unfolding uniquePaths_def by blast
      show ?thesis using e1 e2 ep(1) eq(1) by simp
    qed
  qed
qed


section \<open>Walls and adjacency\<close>

lemma cell_coords:
  assumes "0 < mazeW mz" "isCell mz u"
  obtains x y where "u = cellId x y (mazeW mz)" "0 \<le> x" "x < mazeW mz" "0 \<le> y" "y < mazeH mz"
proof -
  let ?x = "fst (cellPt u (mazeW mz))" and ?y = "snd (cellPt u (mazeW mz))"
  have "u = cellId ?x ?y (mazeW mz)" using cellId_cellPt [of u "mazeW mz"] by simp
  then show ?thesis using that cellPt_inGrid [OF assms] by blast
qed

lemma cellId_shift:
  "cellId (x + 1) y W = cellId x y W + 1"
  "cellId (x - 1) y W = cellId x y W - 1"
  "cellId x (y + 1) W = cellId x y W + W"
  "cellId x (y - 1) W = cellId x y W - W"
  by (simp_all add: cellId_def algebra_simps)

lemma cellId_inj:
  assumes "0 \<le> x" "x < W" "0 \<le> x'" "x' < W" "cellId x y W = cellId x' y' W"
  shows "x = x' \<and> y = y'"
proof -
  have a: "cellPt (cellId x y W) W = (x, y)" using cellPt_cellId [OF assms(1,2)] .
  have b: "cellPt (cellId x' y' W) W = (x', y')" using cellPt_cellId [OF assms(3,4)] .
  have "(x, y) = cellPt (cellId x y W) W" using a by (rule sym)
  also have "\<dots> = cellPt (cellId x' y' W) W"
    by (rule arg_cong [where f = "\<lambda>z. cellPt z W", OF assms(5)])
  also have "\<dots> = (x', y')" by (rule b)
  finally show ?thesis by simp
qed

lemma adjacent_coords:
  assumes "0 \<le> x" "x < mazeW mz" "0 \<le> y" "y < mazeH mz"
  shows "adjacent mz (cellId x y (mazeW mz)) v \<longleftrightarrow>
           (y \<noteq> 0 \<and> \<not> hasDownWall mz ! nat x ! nat (y - 1) \<and> v = cellId x (y - 1) (mazeW mz))
         \<or> (x + 1 < mazeW mz \<and> \<not> hasRightWall mz ! nat x ! nat y \<and> v = cellId (x + 1) y (mazeW mz))
         \<or> (y + 1 < mazeH mz \<and> \<not> hasDownWall mz ! nat x ! nat y \<and> v = cellId x (y + 1) (mazeW mz))
         \<or> (x \<noteq> 0 \<and> \<not> hasRightWall mz ! nat (x - 1) ! nat y \<and> v = cellId (x - 1) y (mazeW mz))"
proof -
  have c: "isCell mz (cellId x y (mazeW mz))" using assms by (rule cellId_isCell)
  have p: "cellPt (cellId x y (mazeW mz)) (mazeW mz) = (x, y)"
    using assms cellPt_cellId by simp
  have 0: "(\<not> outOfGrid mz (nbrX x 0) (nbrY y 0) \<and> canMove mz x y 0
            \<and> v = cellId (nbrX x 0) (nbrY y 0) (mazeW mz))
           \<longleftrightarrow> (y \<noteq> 0 \<and> \<not> hasDownWall mz ! nat x ! nat (y - 1) \<and> v = cellId x (y - 1) (mazeW mz))"
    using assms by (auto simp: outOfGrid_def nbrX_def nbrY_def canMove_def)
  have 1: "(\<not> outOfGrid mz (nbrX x 1) (nbrY y 1) \<and> canMove mz x y 1
            \<and> v = cellId (nbrX x 1) (nbrY y 1) (mazeW mz))
           \<longleftrightarrow> (x + 1 < mazeW mz \<and> \<not> hasRightWall mz ! nat x ! nat y
                \<and> v = cellId (x + 1) y (mazeW mz))"
    using assms by (auto simp: outOfGrid_def nbrX_def nbrY_def canMove_def)
  have 2: "(\<not> outOfGrid mz (nbrX x 2) (nbrY y 2) \<and> canMove mz x y 2
            \<and> v = cellId (nbrX x 2) (nbrY y 2) (mazeW mz))
           \<longleftrightarrow> (y + 1 < mazeH mz \<and> \<not> hasDownWall mz ! nat x ! nat y
                \<and> v = cellId x (y + 1) (mazeW mz))"
    using assms by (auto simp: outOfGrid_def nbrX_def nbrY_def canMove_def)
  have 3: "(\<not> outOfGrid mz (nbrX x 3) (nbrY y 3) \<and> canMove mz x y 3
            \<and> v = cellId (nbrX x 3) (nbrY y 3) (mazeW mz))
           \<longleftrightarrow> (x \<noteq> 0 \<and> \<not> hasRightWall mz ! nat (x - 1) ! nat y
                \<and> v = cellId (x - 1) y (mazeW mz))"
    using assms by (auto simp: outOfGrid_def nbrX_def nbrY_def canMove_def)
  show ?thesis
    unfolding adjacent_def Let_def p fst_conv snd_conv using c 0 1 2 3 by simp
qed

lemma openRight_coords:
  assumes "0 \<le> x" "x < mazeW mz" "0 \<le> y" "y < mazeH mz"
  shows "openRight mz (cellId x y (mazeW mz)) \<longleftrightarrow>
         x + 1 < mazeW mz \<and> \<not> hasRightWall mz ! nat x ! nat y"
proof -
  have c: "isCell mz (cellId x y (mazeW mz))" using assms by (rule cellId_isCell)
  have p: "cellPt (cellId x y (mazeW mz)) (mazeW mz) = (x, y)"
    using assms cellPt_cellId by simp
  show ?thesis unfolding openRight_def p using c by simp
qed

lemma openDown_coords:
  assumes "0 \<le> x" "x < mazeW mz" "0 \<le> y" "y < mazeH mz"
  shows "openDown mz (cellId x y (mazeW mz)) \<longleftrightarrow>
         y + 1 < mazeH mz \<and> \<not> hasDownWall mz ! nat x ! nat y"
proof -
  have c: "isCell mz (cellId x y (mazeW mz))" using assms by (rule cellId_isCell)
  have p: "cellPt (cellId x y (mazeW mz)) (mazeW mz) = (x, y)"
    using assms cellPt_cellId by simp
  show ?thesis unfolding openDown_def p using c by simp
qed

text \<open>Adjacency in terms of the two wall grids: an open wall joins a cell to the next one.\<close>

lemma adjacent_alt:
  assumes pos: "0 < mazeW mz"
  shows "adjacent mz u v \<longleftrightarrow>
           (openRight mz u \<and> v = u + 1) \<or> (openDown mz u \<and> v = u + mazeW mz)
         \<or> (openRight mz v \<and> u = v + 1) \<or> (openDown mz v \<and> u = v + mazeW mz)"
proof
  assume a: "adjacent mz u v"
  then have cu: "isCell mz u" unfolding adjacent_def by simp
  from cell_coords [OF pos cu] obtain x y where
    u: "u = cellId x y (mazeW mz)" and g: "0 \<le> x" "x < mazeW mz" "0 \<le> y" "y < mazeH mz"
    by blast
  from a consider
      "y \<noteq> 0 \<and> \<not> hasDownWall mz ! nat x ! nat (y - 1) \<and> v = cellId x (y - 1) (mazeW mz)"
    | "x + 1 < mazeW mz \<and> \<not> hasRightWall mz ! nat x ! nat y \<and> v = cellId (x + 1) y (mazeW mz)"
    | "y + 1 < mazeH mz \<and> \<not> hasDownWall mz ! nat x ! nat y \<and> v = cellId x (y + 1) (mazeW mz)"
    | "x \<noteq> 0 \<and> \<not> hasRightWall mz ! nat (x - 1) ! nat y \<and> v = cellId (x - 1) y (mazeW mz)"
    unfolding u adjacent_coords [OF g] by blast
  then show "(openRight mz u \<and> v = u + 1) \<or> (openDown mz u \<and> v = u + mazeW mz)
         \<or> (openRight mz v \<and> u = v + 1) \<or> (openDown mz v \<and> u = v + mazeW mz)"
  proof cases
    case 1
    then have "openDown mz v" using openDown_coords [of x mz "y - 1"] g by simp
    moreover have "u = v + mazeW mz" using 1 u cellId_shift(4) [of x y "mazeW mz"] by simp
    ultimately show ?thesis by simp
  next
    case 2
    then have "openRight mz u" unfolding u using openRight_coords [OF g] by simp
    moreover have "v = u + 1" using 2 u cellId_shift(1) [of x y "mazeW mz"] by simp
    ultimately show ?thesis by simp
  next
    case 3
    then have "openDown mz u" unfolding u using openDown_coords [OF g] by simp
    moreover have "v = u + mazeW mz" using 3 u cellId_shift(3) [of x y "mazeW mz"] by simp
    ultimately show ?thesis by simp
  next
    case 4
    then have "openRight mz v" using openRight_coords [of "x - 1" mz y] g by simp
    moreover have "u = v + 1" using 4 u cellId_shift(2) [of x y "mazeW mz"] by simp
    ultimately show ?thesis by simp
  qed
next
  assume "(openRight mz u \<and> v = u + 1) \<or> (openDown mz u \<and> v = u + mazeW mz)
         \<or> (openRight mz v \<and> u = v + 1) \<or> (openDown mz v \<and> u = v + mazeW mz)"
  then consider "openRight mz u \<and> v = u + 1" | "openDown mz u \<and> v = u + mazeW mz"
    | "openRight mz v \<and> u = v + 1" | "openDown mz v \<and> u = v + mazeW mz" by blast
  then show "adjacent mz u v"
  proof cases
    case 1
    then have cu: "isCell mz u" unfolding openRight_def by simp
    from cell_coords [OF pos cu] obtain x y where
      u: "u = cellId x y (mazeW mz)" and g: "0 \<le> x" "x < mazeW mz" "0 \<le> y" "y < mazeH mz"
      by blast
    have "x + 1 < mazeW mz \<and> \<not> hasRightWall mz ! nat x ! nat y"
      using 1 unfolding u openRight_coords [OF g] by simp
    moreover have "v = cellId (x + 1) y (mazeW mz)" using 1 u cellId_shift(1) by simp
    ultimately show ?thesis unfolding u adjacent_coords [OF g] by simp
  next
    case 2
    then have cu: "isCell mz u" unfolding openDown_def by simp
    from cell_coords [OF pos cu] obtain x y where
      u: "u = cellId x y (mazeW mz)" and g: "0 \<le> x" "x < mazeW mz" "0 \<le> y" "y < mazeH mz"
      by blast
    have "y + 1 < mazeH mz \<and> \<not> hasDownWall mz ! nat x ! nat y"
      using 2 unfolding u openDown_coords [OF g] by simp
    moreover have "v = cellId x (y + 1) (mazeW mz)" using 2 u cellId_shift(3) by simp
    ultimately show ?thesis unfolding u adjacent_coords [OF g] by simp
  next
    case 3
    then have cv: "isCell mz v" unfolding openRight_def by simp
    from cell_coords [OF pos cv] obtain x y where
      v: "v = cellId x y (mazeW mz)" and g: "0 \<le> x" "x < mazeW mz" "0 \<le> y" "y < mazeH mz"
      by blast
    have o: "x + 1 < mazeW mz \<and> \<not> hasRightWall mz ! nat x ! nat y"
      using 3 unfolding v openRight_coords [OF g] by simp
    have u: "u = cellId (x + 1) y (mazeW mz)" using 3 v cellId_shift(1) by simp
    have g': "0 \<le> x + 1" "x + 1 < mazeW mz" using g o by simp_all
    have d: "x + 1 \<noteq> 0 \<and> \<not> hasRightWall mz ! nat (x + 1 - 1) ! nat y
             \<and> v = cellId (x + 1 - 1) y (mazeW mz)"
      using o v g by simp
    show ?thesis unfolding u
      by (subst adjacent_coords [OF g' g(3,4)], intro disjI2, rule d)
  next
    case 4
    then have cv: "isCell mz v" unfolding openDown_def by simp
    from cell_coords [OF pos cv] obtain x y where
      v: "v = cellId x y (mazeW mz)" and g: "0 \<le> x" "x < mazeW mz" "0 \<le> y" "y < mazeH mz"
      by blast
    have o: "y + 1 < mazeH mz \<and> \<not> hasDownWall mz ! nat x ! nat y"
      using 4 unfolding v openDown_coords [OF g] by simp
    have u: "u = cellId x (y + 1) (mazeW mz)" using 4 v cellId_shift(3) by simp
    have g': "0 \<le> y + 1" "y + 1 < mazeH mz" using g o by simp_all
    have d: "y + 1 \<noteq> 0 \<and> \<not> hasDownWall mz ! nat x ! nat (y + 1 - 1)
             \<and> v = cellId x (y + 1 - 1) (mazeW mz)"
      using o v g by simp
    show ?thesis unfolding u
      by (subst adjacent_coords [OF g(1,2) g'], rule disjI1, rule d)
  qed
qed

lemma adjacent_sym:
  assumes pos: "0 < mazeW mz"
  shows "symp (adjacent mz)"
proof (rule sympI)
  fix u v assume "adjacent mz u v"
  then have "(openRight mz u \<and> v = u + 1) \<or> (openDown mz u \<and> v = u + mazeW mz)
         \<or> (openRight mz v \<and> u = v + 1) \<or> (openDown mz v \<and> u = v + mazeW mz)"
    using adjacent_alt [OF pos, of u v] by simp
  then have "(openRight mz v \<and> u = v + 1) \<or> (openDown mz v \<and> u = v + mazeW mz)
         \<or> (openRight mz u \<and> v = u + 1) \<or> (openDown mz u \<and> v = u + mazeW mz)"
    by (elim disjE) simp_all
  then show "adjacent mz v u" using adjacent_alt [OF pos, of v u] by simp
qed

lemma candidateEdges_set:
  "e \<in> set (candidateEdges (mazeW mz) (mazeH mz)) \<longleftrightarrow> validEdge mz e"
  unfolding candidateEdges_def validEdge_def by (cases e) (auto split: if_splits)

lemma grid_upd_nth:
  assumes "length g = nat W" "\<forall>col \<in> set g. length col = nat H"
    and "0 \<le> x0" "x0 < W" "0 \<le> y0" "y0 < H" "0 \<le> x" "x < W" "0 \<le> y" "y < H"
  shows "g[nat x0 := (g ! nat x0)[nat y0 := b]] ! nat x ! nat y
         = (if x = x0 \<and> y = y0 then b else g ! nat x ! nat y)"
proof (cases "x = x0")
  case True
  have i: "nat x0 < length g" using assms by simp
  then have "length (g ! nat x0) = nat H" using assms(2) by simp
  then have j: "y < int (length (g ! nat x0))" using assms by simp
  have "g[nat x0 := (g ! nat x0)[nat y0 := b]] ! nat x0 = (g ! nat x0)[nat y0 := b]"
    using i by simp
  then show ?thesis using True upd_nth_int [OF assms(5) assms(9) j, of b] by auto
next
  case False
  then have "nat x0 \<noteq> nat x" using assms by (simp add: eq_nat_nat_iff)
  then show ?thesis using False by simp
qed

lemma grid_upd_wf:
  assumes "length g = nat W" "\<forall>col \<in> set g. length col = nat H"
  shows "length (g[i := (g ! i)[j := b]]) = nat W
         \<and> (\<forall>col \<in> set (g[i := (g ! i)[j := b]]). length col = nat H)"
proof (cases "i < length g")
  case True
  have "set (g[i := (g ! i)[j := b]]) \<subseteq> insert ((g ! i)[j := b]) (set g)"
    by (rule set_update_subset_insert)
  moreover have "length ((g ! i)[j := b]) = nat H" using assms(2) True by simp
  ultimately show ?thesis using assms by auto
next
  case False
  then have "g[i := (g ! i)[j := b]] = g" by (simp add: list_update_beyond)
  then show ?thesis using assms by simp
qed

lemma removeWall_dims [simp]:
  "mazeW (removeWall mz e) = mazeW mz" "mazeH (removeWall mz e) = mazeH mz"
  by (cases e; simp add: removeWall_def)+

lemma removeWall_isCell [simp]: "isCell (removeWall mz e) a = isCell mz a"
  by (simp add: isCell_def)

lemma removeWall_wf:
  assumes "wfMaze mz"
  shows "wfMaze (removeWall mz e)"
proof -
  obtain x y dir where e: "e = (x, y, dir)" by (cases e) auto
  show ?thesis
    using assms grid_upd_wf [of "hasRightWall mz" "mazeW mz" "mazeH mz" "nat x" "nat y" False]
      grid_upd_wf [of "hasDownWall mz" "mazeW mz" "mazeH mz" "nat x" "nat y" False]
    unfolding wfMaze_def e removeWall_def by simp
qed

lemma count_upd_row:
  "j < length l \<Longrightarrow> l ! j \<Longrightarrow> length (filter Not (l[j := False])) = Suc (length (filter Not l))"
proof (induction l arbitrary: j)
  case Nil
  then show ?case by simp
next
  case (Cons a l)
  then show ?case by (cases j) auto
qed

lemma count_upd_grid:
  assumes "i < length g" "j < length (g ! i)" "g ! i ! j"
  shows "length (filter Not (concat (g[i := (g ! i)[j := False]])))
         = Suc (length (filter Not (concat g)))"
proof -
  have 1: "g[i := (g ! i)[j := False]] = take i g @ (g ! i)[j := False] # drop (Suc i) g"
    using assms(1) by (rule upd_conv_take_nth_drop)
  have 2: "g = take i g @ g ! i # drop (Suc i) g"
    using assms(1) by (rule id_take_nth_drop)
  have "length (filter Not (concat (take i g @ (g ! i)[j := False] # drop (Suc i) g)))
        = Suc (length (filter Not (concat (take i g @ g ! i # drop (Suc i) g))))"
    using count_upd_row [OF assms(2,3)] by simp
  then show ?thesis using 1 2 by simp
qed

lemma openRight_removeWall_right:
  assumes wf: "wfMaze mz" and pos: "0 < mazeW mz"
    and g0: "0 \<le> x0" "x0 + 1 < mazeW mz" "0 \<le> y0" "y0 < mazeH mz"
  shows "openRight (removeWall mz (x0, y0, 1)) a \<longleftrightarrow>
         openRight mz a \<or> a = cellId x0 y0 (mazeW mz)"
proof (cases "isCell mz a")
  case False
  have "isCell mz (cellId x0 y0 (mazeW mz))" using g0 by (intro cellId_isCell) simp_all
  then have "a \<noteq> cellId x0 y0 (mazeW mz)" using False by auto
  then show ?thesis using False by (simp add: openRight_def)
next
  case True
  from cell_coords [OF pos True] obtain x y where
    a: "a = cellId x y (mazeW mz)" and g: "0 \<le> x" "x < mazeW mz" "0 \<le> y" "y < mazeH mz"
    by blast
  let ?mz = "removeWall mz (x0, y0, 1)"
  have g': "0 \<le> x" "x < mazeW ?mz" "0 \<le> y" "y < mazeH ?mz" using g by simp_all
  have x0: "x0 < mazeW mz" using g0 by simp
  have lenR: "length (hasRightWall mz) = nat (mazeW mz)"
    "\<forall>col \<in> set (hasRightWall mz). length col = nat (mazeH mz)"
    using wf unfolding wfMaze_def by simp_all
  have n: "hasRightWall ?mz ! nat x ! nat y
           = (if x = x0 \<and> y = y0 then False else hasRightWall mz ! nat x ! nat y)"
    unfolding removeWall_def using grid_upd_nth [OF lenR g0(1) x0 g0(3,4) g, of False] by simp
  have e: "a = cellId x0 y0 (mazeW mz) \<longleftrightarrow> x = x0 \<and> y = y0"
    unfolding a using cellId_inj [OF g(1,2) g0(1) x0] by auto
  have 1: "openRight ?mz a \<longleftrightarrow> x + 1 < mazeW mz \<and> \<not> hasRightWall ?mz ! nat x ! nat y"
    unfolding a using openRight_coords [OF g'] by simp
  have 2: "openRight mz a \<longleftrightarrow> x + 1 < mazeW mz \<and> \<not> hasRightWall mz ! nat x ! nat y"
    unfolding a using openRight_coords [OF g] by simp
  show ?thesis unfolding 1 2 n e using g0 by auto
qed

lemma openDown_removeWall_down:
  assumes wf: "wfMaze mz" and pos: "0 < mazeW mz"
    and g0: "0 \<le> x0" "x0 < mazeW mz" "0 \<le> y0" "y0 + 1 < mazeH mz" and d: "dir \<noteq> 1"
  shows "openDown (removeWall mz (x0, y0, dir)) a \<longleftrightarrow>
         openDown mz a \<or> a = cellId x0 y0 (mazeW mz)"
proof (cases "isCell mz a")
  case False
  have "isCell mz (cellId x0 y0 (mazeW mz))" using g0 by (intro cellId_isCell) simp_all
  then have "a \<noteq> cellId x0 y0 (mazeW mz)" using False by auto
  then show ?thesis using False by (simp add: openDown_def)
next
  case True
  from cell_coords [OF pos True] obtain x y where
    a: "a = cellId x y (mazeW mz)" and g: "0 \<le> x" "x < mazeW mz" "0 \<le> y" "y < mazeH mz"
    by blast
  let ?mz = "removeWall mz (x0, y0, dir)"
  have g': "0 \<le> x" "x < mazeW ?mz" "0 \<le> y" "y < mazeH ?mz" using g by simp_all
  have y0: "y0 < mazeH mz" using g0 by simp
  have lenD: "length (hasDownWall mz) = nat (mazeW mz)"
    "\<forall>col \<in> set (hasDownWall mz). length col = nat (mazeH mz)"
    using wf unfolding wfMaze_def by simp_all
  have n: "hasDownWall ?mz ! nat x ! nat y
           = (if x = x0 \<and> y = y0 then False else hasDownWall mz ! nat x ! nat y)"
    unfolding removeWall_def using grid_upd_nth [OF lenD g0(1,2,3) y0 g, of False] d by simp
  have e: "a = cellId x0 y0 (mazeW mz) \<longleftrightarrow> x = x0 \<and> y = y0"
    unfolding a using cellId_inj [OF g(1,2) g0(1,2)] by auto
  have 1: "openDown ?mz a \<longleftrightarrow> y + 1 < mazeH mz \<and> \<not> hasDownWall ?mz ! nat x ! nat y"
    unfolding a using openDown_coords [OF g'] by simp
  have 2: "openDown mz a \<longleftrightarrow> y + 1 < mazeH mz \<and> \<not> hasDownWall mz ! nat x ! nat y"
    unfolding a using openDown_coords [OF g] by simp
  show ?thesis unfolding 1 2 n e using g0 by auto
qed

lemma openDown_removeWall_right [simp]:
  "openDown (removeWall mz (x0, y0, 1)) a = openDown mz a"
  by (simp add: openDown_def removeWall_def isCell_def)

lemma openRight_removeWall_down [simp]:
  "dir \<noteq> 1 \<Longrightarrow> openRight (removeWall mz (x0, y0, dir)) a = openRight mz a"
  by (simp add: openRight_def removeWall_def isCell_def)

text \<open>Removing the wall of a candidate edge adds exactly that edge to the adjacency.\<close>

lemma adjacent_removeWall:
  assumes wf: "wfMaze mz" and pos: "0 < mazeW mz" and v: "validEdge mz e"
  shows "adjacent (removeWall mz e) = withEdge (adjacent mz) (edgeA mz e) (edgeB mz e)"
proof (intro ext)
  fix u w
  obtain x0 y0 dir where e: "e = (x0, y0, dir)" by (cases e) auto
  have g0: "0 \<le> x0" "x0 < mazeW mz" "0 \<le> y0" "y0 < mazeH mz"
    and dd: "(dir = 1 \<and> x0 + 1 < mazeW mz) \<or> (dir = 2 \<and> y0 + 1 < mazeH mz)"
    using v unfolding validEdge_def e by auto
  let ?mz = "removeWall mz e"
  let ?a = "cellId x0 y0 (mazeW mz)"
  have pos': "0 < mazeW ?mz" using pos by simp
  have alt': "adjacent ?mz u w \<longleftrightarrow>
           (openRight ?mz u \<and> w = u + 1) \<or> (openDown ?mz u \<and> w = u + mazeW mz)
         \<or> (openRight ?mz w \<and> u = w + 1) \<or> (openDown ?mz w \<and> u = w + mazeW mz)"
    using adjacent_alt [OF pos', of u w] by simp
  have alt: "adjacent mz u w \<longleftrightarrow>
           (openRight mz u \<and> w = u + 1) \<or> (openDown mz u \<and> w = u + mazeW mz)
         \<or> (openRight mz w \<and> u = w + 1) \<or> (openDown mz w \<and> u = w + mazeW mz)"
    using adjacent_alt [OF pos, of u w] .
  from dd show "adjacent ?mz u w = withEdge (adjacent mz) (edgeA mz e) (edgeB mz e) u w"
  proof
    assume d: "dir = 1 \<and> x0 + 1 < mazeW mz"
    have r: "\<And>a. openRight ?mz a \<longleftrightarrow> openRight mz a \<or> a = ?a"
      unfolding e using openRight_removeWall_right [OF wf pos g0(1) _ g0(3,4)] d by simp
    have dn: "\<And>a. openDown ?mz a = openDown mz a" unfolding e using d by simp
    have ab: "edgeA mz e = ?a" "edgeB mz e = ?a + 1"
      using d by (simp_all add: edgeA_def edgeB_def e cellId_def)
    show ?thesis unfolding alt' withEdge_def ab alt r dn by auto
  next
    assume d: "dir = 2 \<and> y0 + 1 < mazeH mz"
    then have d1: "dir \<noteq> 1" by simp
    have r: "\<And>a. openDown ?mz a \<longleftrightarrow> openDown mz a \<or> a = ?a"
      unfolding e using openDown_removeWall_down [OF wf pos g0(1,2,3) _ d1] d by simp
    have dn: "\<And>a. openRight ?mz a = openRight mz a" unfolding e using d1 by simp
    have ab: "edgeA mz e = ?a" "edgeB mz e = ?a + mazeW mz"
      using d by (simp_all add: edgeA_def edgeB_def e cellId_def)
    show ?thesis unfolding alt' withEdge_def ab alt r dn by auto
  qed
qed

lemma removedWalls_removeWall:
  assumes wf: "wfMaze mz" and pos: "0 < mazeW mz" and v: "validEdge mz e"
    and na: "\<not> adjacent mz (edgeA mz e) (edgeB mz e)"
  shows "removedWalls (removeWall mz e) = Suc (removedWalls mz)"
proof -
  obtain x0 y0 dir where e: "e = (x0, y0, dir)" by (cases e) auto
  have g0: "0 \<le> x0" "x0 < mazeW mz" "0 \<le> y0" "y0 < mazeH mz"
    and dd: "(dir = 1 \<and> x0 + 1 < mazeW mz) \<or> (dir = 2 \<and> y0 + 1 < mazeH mz)"
    using v unfolding validEdge_def e by auto
  let ?a = "cellId x0 y0 (mazeW mz)"
  have i: "nat x0 < length (hasRightWall mz)" "nat x0 < length (hasDownWall mz)"
    using wf g0 unfolding wfMaze_def by simp_all
  then have j: "nat y0 < length (hasRightWall mz ! nat x0)"
    "nat y0 < length (hasDownWall mz ! nat x0)"
    using wf g0 unfolding wfMaze_def by simp_all
  from dd show ?thesis
  proof
    assume d: "dir = 1 \<and> x0 + 1 < mazeW mz"
    have ab: "edgeA mz e = ?a" "edgeB mz e = ?a + 1"
      using d by (simp_all add: edgeA_def edgeB_def e cellId_def)
    have "\<not> openRight mz ?a" using na adjacent_alt [OF pos, of ?a "?a + 1"] ab by simp
    then have "hasRightWall mz ! nat x0 ! nat y0"
      using openRight_coords [OF g0] d by simp
    then show ?thesis
      unfolding removedWalls_def e removeWall_def using d count_upd_grid [OF i(1) j(1)] by simp
  next
    assume d: "dir = 2 \<and> y0 + 1 < mazeH mz"
    have ab: "edgeA mz e = ?a" "edgeB mz e = ?a + mazeW mz"
      using d by (simp_all add: edgeA_def edgeB_def e cellId_def)
    have "\<not> openDown mz ?a" using na adjacent_alt [OF pos, of ?a "?a + mazeW mz"] ab by simp
    then have "hasDownWall mz ! nat x0 ! nat y0"
      using openDown_coords [OF g0] d by simp
    then show ?thesis
      unfolding removedWalls_def e removeWall_def using d count_upd_grid [OF i(2) j(2)] by simp
  qed
qed

lemma edgeSet_finite: "finite (edgeSet mz)"
proof -
  have "edgeSet mz \<subseteq> {0..<mazeW mz * mazeH mz} \<times> {0..<mazeW mz * mazeH mz}"
  proof (rule subsetI)
    fix p assume "p \<in> edgeSet mz"
    then obtain u v where p: "p = (u, v)" and a: "adjacent mz u v"
      unfolding edgeSet_def by auto
    have "isCell mz u" "isCell mz v" using adjacent_isCell [OF a] .
    then show "p \<in> {0..<mazeW mz * mazeH mz} \<times> {0..<mazeW mz * mazeH mz}"
      unfolding p isCell_def by simp
  qed
  then show ?thesis by (rule finite_subset) simp
qed

text \<open>Removing the wall of a candidate edge whose ends are not adjacent adds one edge.\<close>

lemma edgeSet_removeWall:
  assumes wf: "wfMaze mz" and pos: "0 < mazeW mz" and v: "validEdge mz e"
    and na: "\<not> adjacent mz (edgeA mz e) (edgeB mz e)"
  shows "card (edgeSet (removeWall mz e)) = Suc (card (edgeSet mz))"
proof -
  let ?a = "edgeA mz e" and ?b = "edgeB mz e"
  have lt: "?a < ?b"
    using v pos by (cases e) (auto simp: validEdge_def edgeA_def edgeB_def)
  have "\<And>u w. (u < w \<and> withEdge (adjacent mz) ?a ?b u w)
            \<longleftrightarrow> ((u, w) = (?a, ?b) \<or> (u < w \<and> adjacent mz u w))"
    unfolding withEdge_def using lt by auto
  then have "edgeSet (removeWall mz e) = insert (?a, ?b) (edgeSet mz)"
    unfolding edgeSet_def adjacent_removeWall [OF wf pos v] by auto
  moreover have "(?a, ?b) \<notin> edgeSet mz" using na unfolding edgeSet_def by simp
  ultimately show ?thesis using edgeSet_finite [of mz] by simp
qed

lemma sp_cells:
  assumes "sp (adjacent mz) a b p" and "isCell mz a"
  shows "\<forall>x \<in> set p. isCell mz x"
proof -
  have s: "successively (adjacent mz) p" and h: "p \<noteq> []" "hd p = a"
    using assms(1) unfolding sp_def by simp_all
  have "\<And>a. successively (adjacent mz) p \<Longrightarrow> p \<noteq> [] \<Longrightarrow> isCell mz (hd p)
          \<Longrightarrow> \<forall>x \<in> set p. isCell mz x"
  proof (induction p)
    case Nil
    then show ?case by simp
  next
    case (Cons x p)
    show ?case
    proof (cases p)
      case Nil
      then show ?thesis using Cons.prems by simp
    next
      case c: (Cons y r)
      then have "adjacent mz x y" using Cons.prems(1) by simp
      then have "isCell mz (hd p)" using adjacent_isCell(2) c by simp
      moreover have "successively (adjacent mz) p" using Cons.prems(1) c by simp
      ultimately have "\<forall>x \<in> set p. isCell mz x" using Cons.IH c by simp
      then show ?thesis using Cons.prems(3) by simp
    qed
  qed
  then show ?thesis using s h assms(2) by simp
qed

lemma simplePath_sp:
  "simplePath mz a b p \<longleftrightarrow> sp (adjacent mz) a b p \<and> (\<forall>x \<in> set p. isCell mz x)"
  unfolding simplePath_def sp_def by auto

lemma uniquePaths_acyclic:
  assumes pos: "0 < mazeW mz" and up: "uniquePaths (adjacent mz)"
  shows "acyclicMaze mz"
  unfolding acyclicMaze_def
proof
  assume "\<exists>p. 3 \<le> length p \<and> distinct p \<and> successively (adjacent mz) p
               \<and> adjacent mz (last p) (hd p)"
  then obtain p where p: "3 \<le> length p" "distinct p" "successively (adjacent mz) p"
    "adjacent mz (last p) (hd p)" by (elim exE conjE)
  have ne: "p \<noteq> []" using p(1) by auto
  have p1: "sp (adjacent mz) (hd p) (last p) p" unfolding sp_def using ne p(2,3) by simp
  have bk: "adjacent mz (hd p) (last p)" using sympD [OF adjacent_sym [OF pos] p(4)] .
  have nl: "hd p \<noteq> last p"
  proof
    assume e: "hd p = last p"
    obtain x r where xr: "p = x # r" using ne by (cases p) simp_all
    then have "r \<noteq> []" using p(1) by auto
    then have "last p \<in> set r" unfolding xr by simp
    moreover have "hd p \<notin> set r" using p(2) unfolding xr by simp
    ultimately show False using e by simp
  qed
  have p2: "sp (adjacent mz) (hd p) (last p) [hd p, last p]"
    unfolding sp_def using bk nl by simp
  have "\<forall>a b p q. sp (adjacent mz) a b p \<and> sp (adjacent mz) a b q \<longrightarrow> p = q"
    using up unfolding uniquePaths_def .
  then have "sp (adjacent mz) (hd p) (last p) p
     \<and> sp (adjacent mz) (hd p) (last p) [hd p, last p] \<longrightarrow> p = [hd p, last p]"
    by (elim allE)
  then have "p = [hd p, last p]" using p1 p2 by (elim impE) (rule conjI)
  then have "length p = length [hd p, last p]" by (rule arg_cong)
  then show False using p(1) by simp
qed

text \<open>In a maze that is connected with unique simple paths, any two cells are joined by
  exactly one simple path.\<close>

lemma tree_unique_path:
  assumes pos: "0 < mazeW mz" and cm: "connectedMaze mz" and up: "uniquePaths (adjacent mz)"
    and a: "isCell mz a" and b: "isCell mz b"
  shows "\<exists>!p. simplePath mz a b p"
proof -
  have cmd: "\<forall>v. isCell mz v \<longrightarrow> (adjacent mz)\<^sup>*\<^sup>* 0 v"
    using cm unfolding connectedMaze_def .
  have ra: "(adjacent mz)\<^sup>*\<^sup>* 0 a" using cmd [rule_format, OF a] .
  have rb: "(adjacent mz)\<^sup>*\<^sup>* 0 b" using cmd [rule_format, OF b] .
  have ra': "(adjacent mz)\<^sup>*\<^sup>* a 0" using rtranclp_sym [OF adjacent_sym [OF pos] ra] .
  have "(adjacent mz)\<^sup>*\<^sup>* a b" using ra' rb by (rule rtranclp_trans)
  from reach_sp [OF this] obtain p where p: "sp (adjacent mz) a b p" by (elim exE)
  have cp: "\<forall>x \<in> set p. isCell mz x" using sp_cells [OF p a] .
  have spp: "simplePath mz a b p" unfolding simplePath_sp using p cp by (rule conjI)
  have u: "\<forall>a b p q. sp (adjacent mz) a b p \<and> sp (adjacent mz) a b q \<longrightarrow> p = q"
    using up unfolding uniquePaths_def .
  show ?thesis
  proof (rule ex1I [of _ p])
    show "simplePath mz a b p" using spp .
  next
    fix q assume "simplePath mz a b q"
    then have q: "sp (adjacent mz) a b q" unfolding simplePath_sp by (rule conjunct1)
    show "q = p" using u [rule_format, of a b q p] q p by simp
  qed
qed

section \<open>Generation\<close>

lemma roots_finite: "finite (roots l)"
proof -
  have "roots l \<subseteq> {0..<int (length l)}" unfolding roots_def using rep_range by auto
  then show ?thesis using finite_subset by blast
qed

lemma roots_cong: "(\<forall>y s. rep l' y s \<longleftrightarrow> rep l y s) \<Longrightarrow> roots l' = roots l"
  by (simp add: roots_def)

lemma sameRoot_cong: "(\<forall>y s. rep l' y s \<longleftrightarrow> rep l y s) \<Longrightarrow> sameRoot l' a b = sameRoot l a b"
  by (simp add: sameRoot_def)

lemma roots_link:
  assumes big: "rep l big big" and small: "rep l small small" and ne: "big \<noteq> small"
    and r': "\<forall>y t. rep l' y t \<longleftrightarrow> (\<exists>s. rep l y s \<and> t = (if s = small then big else s))"
  shows "roots l' = roots l - {small}"
proof (rule set_eqI)
  fix t
  show "t \<in> roots l' \<longleftrightarrow> t \<in> roots l - {small}"
  proof
    assume "t \<in> roots l'"
    then obtain s where s: "rep l t s" "t = (if s = small then big else s)"
      using r' unfolding roots_def by blast
    show "t \<in> roots l - {small}"
    proof (cases "s = small")
      case True
      then have "t = big" using s(2) by simp
      then have "s = big" using s(1) big rep_fun by blast
      then show ?thesis using True ne by simp
    next
      case False
      then have "t = s" using s(2) by simp
      then show ?thesis using s(1) False unfolding roots_def by simp
    qed
  next
    assume "t \<in> roots l - {small}"
    then have "rep l t t" "t \<noteq> small" unfolding roots_def by simp_all
    then have "rep l' t t" using r' by auto
    then show "t \<in> roots l'" unfolding roots_def by simp
  qed
qed

lemma sameRoot_link:
  assumes inv: "uf_inv l" and ra: "rep l a ra" and rb: "rep l b rb" and ne: "ra \<noteq> rb"
    and bs: "(big = ra \<and> small = rb) \<or> (big = rb \<and> small = ra)"
    and r': "\<forall>y t. rep l' y t \<longleftrightarrow> (\<exists>s. rep l y s \<and> t = (if s = small then big else s))"
    and x: "0 \<le> x" "x < int (length l)" and y: "0 \<le> y" "y < int (length l)"
  shows "sameRoot l' x y \<longleftrightarrow>
         sameRoot l x y \<or> (sameRoot l x a \<and> sameRoot l b y) \<or> (sameRoot l x b \<and> sameRoot l a y)"
proof -
  from inv x obtain sx where sx: "rep l x sx" unfolding uf_inv_def by blast
  from inv y obtain sy where sy: "rep l y sy" unfolding uf_inv_def by blast
  let ?f = "\<lambda>s. if s = small then big else s"
  have 1: "sameRoot l' x y \<longleftrightarrow> ?f sx = ?f sy"
  proof
    assume "sameRoot l' x y"
    then obtain t where "rep l' x t" "rep l' y t" unfolding sameRoot_def by blast
    then obtain s1 s2 where "rep l x s1" "t = ?f s1" "rep l y s2" "t = ?f s2"
      using r' by blast
    then show "?f sx = ?f sy" using sx sy rep_fun by metis
  next
    assume "?f sx = ?f sy"
    moreover have "rep l' x (?f sx)" "rep l' y (?f sy)" using r' sx sy by blast+
    ultimately show "sameRoot l' x y" unfolding sameRoot_def by metis
  qed
  have 2: "sameRoot l x y \<longleftrightarrow> sx = sy"
    unfolding sameRoot_def using sx sy rep_fun by metis
  have 3: "sameRoot l x a \<longleftrightarrow> sx = ra" "sameRoot l x b \<longleftrightarrow> sx = rb"
    unfolding sameRoot_def using sx ra rb rep_fun by metis+
  have 4: "sameRoot l a y \<longleftrightarrow> sy = ra" "sameRoot l b y \<longleftrightarrow> sy = rb"
    unfolding sameRoot_def using sy ra rb rep_fun by metis+
  show ?thesis unfolding 1 2 3 4 using bs ne by auto
qed

lemma validEdge_cells:
  assumes "validEdge mz e"
  shows "isCell mz (edgeA mz e)" "isCell mz (edgeB mz e)"
proof -
  obtain x y dir where e: "e = (x, y, dir)" by (cases e) auto
  have g: "0 \<le> x" "x < mazeW mz" "0 \<le> y" "y < mazeH mz"
    and dd: "(dir = 1 \<and> x + 1 < mazeW mz) \<or> (dir = 2 \<and> y + 1 < mazeH mz)"
    using assms unfolding validEdge_def e by auto
  have a: "edgeA mz e = cellId x y (mazeW mz)" by (simp add: edgeA_def e cellId_def)
  show "isCell mz (edgeA mz e)" unfolding a using g by (rule cellId_isCell)
  from dd show "isCell mz (edgeB mz e)"
  proof
    assume d: "dir = 1 \<and> x + 1 < mazeW mz"
    then have b: "edgeB mz e = cellId (x + 1) y (mazeW mz)"
      by (simp add: edgeB_def e cellId_def)
    show ?thesis unfolding b using g d by (intro cellId_isCell) simp_all
  next
    assume d: "dir = 2 \<and> y + 1 < mazeH mz"
    then have b: "edgeB mz e = cellId x (y + 1) (mazeW mz)"
      by (simp add: edgeB_def e cellId_def algebra_simps)
    show ?thesis unfolding b using g d by (intro cellId_isCell) simp_all
  qed
qed

lemma kruskalStep_triple:
  "kruskalStep (x, y, dir) (mz, ds) =
     Option.bind (findRoot ds (edgeA mz (x, y, dir))) (\<lambda>(ra, ds1).
     Option.bind (findRoot ds1 (edgeB mz (x, y, dir))) (\<lambda>(rb, ds2).
       if ra \<noteq> rb
       then Option.bind (unite ds2 (edgeA mz (x, y, dir)) (edgeB mz (x, y, dir)))
              (\<lambda>ds3. Some (removeWall mz (x, y, dir), ds3))
       else Some (mz, ds2)))"
  by (simp add: kruskalStep_def edgeA_def edgeB_def Let_def cong: if_cong)

lemma kruskalStep_unfold:
  "kruskalStep e (mz, ds) =
     Option.bind (findRoot ds (edgeA mz e)) (\<lambda>(ra, ds1).
     Option.bind (findRoot ds1 (edgeB mz e)) (\<lambda>(rb, ds2).
       if ra \<noteq> rb
       then Option.bind (unite ds2 (edgeA mz e) (edgeB mz e)) (\<lambda>ds3. Some (removeWall mz e, ds3))
       else Some (mz, ds2)))"
proof -
  obtain x y dir where e: "e = (x, y, dir)" by (cases e) auto
  show ?thesis unfolding e by (rule kruskalStep_triple)
qed

lemma edge_removeWall [simp]:
  "edgeA (removeWall mz e') e = edgeA mz e" "edgeB (removeWall mz e') e = edgeB mz e"
  "validEdge (removeWall mz e') e = validEdge mz e"
  by (cases e; simp add: edgeA_def edgeB_def validEdge_def)+

text \<open>One iteration of the loop over the shuffled edges keeps the invariant.\<close>

lemma kruskalStep_inv:
  assumes inv: "kInv W H (mz, ds)" and pos: "0 < W" and v: "validEdge mz e"
  shows "\<exists>mz' ds'. kruskalStep e (mz, ds) = Some (mz', ds') \<and> kInv W H (mz', ds')
           \<and> (adjacent mz')\<^sup>*\<^sup>* (edgeA mz e) (edgeB mz e)
           \<and> (\<forall>x y. (adjacent mz)\<^sup>*\<^sup>* x y \<longrightarrow> (adjacent mz')\<^sup>*\<^sup>* x y)"
proof -
  let ?a = "edgeA mz e" and ?b = "edgeB mz e"
  let ?l = "parent ds"
  have W: "mazeW mz = W" and H: "mazeH mz = H" and wf: "wfMaze mz"
    and ui: "uf_inv ?l" and len: "length ?l = nat (W * H)"
    and conn: "\<forall>a b. isCell mz a \<and> isCell mz b \<longrightarrow>
               (sameRoot ?l a b \<longleftrightarrow> (adjacent mz)\<^sup>*\<^sup>* a b)"
    and up: "uniquePaths (adjacent mz)"
    and cnt: "removedWalls mz + card (roots ?l) = nat (W * H)"
    and ec: "card (edgeSet mz) = removedWalls mz"
    using inv unfolding kInv_def by auto
  have posW: "0 < mazeW mz" using pos W by simp
  have ca: "isCell mz ?a" and cb: "isCell mz ?b" using validEdge_cells [OF v] by simp_all
  have rng: "\<And>c. isCell mz c \<longleftrightarrow> 0 \<le> c \<and> c < int (length ?l)"
    unfolding isCell_def len W H by auto
  have a: "0 \<le> ?a" "?a < int (length ?l)" using ca rng by simp_all
  from findRoot_rep [OF ui a] obtain ra ds1 where
    f1: "findRoot ds ?a = Some (ra, ds1)" and ra: "rep ?l ?a ra"
    and l1: "length (parent ds1) = length ?l" and i1: "uf_inv (parent ds1)"
    and r1: "\<forall>y s. rep (parent ds1) y s \<longleftrightarrow> rep ?l y s"
    by blast
  have b1: "0 \<le> ?b" "?b < int (length (parent ds1))" using cb rng l1 by simp_all
  from findRoot_rep [OF i1 b1] obtain rb ds2 where
    f2: "findRoot ds1 ?b = Some (rb, ds2)" and rb1: "rep (parent ds1) ?b rb"
    and l2: "length (parent ds2) = length (parent ds1)" and i2: "uf_inv (parent ds2)"
    and r2: "\<forall>y s. rep (parent ds2) y s \<longleftrightarrow> rep (parent ds1) y s"
    by blast
  have rb: "rep ?l ?b rb" using rb1 r1 by simp
  have r12: "\<forall>y s. rep (parent ds2) y s \<longleftrightarrow> rep ?l y s" using r1 r2 by simp
  have len2: "length (parent ds2) = nat (W * H)" using l1 l2 len by simp
  have same_ab: "sameRoot ?l ?a ?b \<longleftrightarrow> ra = rb"
  proof
    assume "sameRoot ?l ?a ?b"
    then obtain r where r: "rep ?l ?a r" "rep ?l ?b r" unfolding sameRoot_def by blast
    have "r = ra" using rep_fun [OF r(1) ra] .
    moreover have "r = rb" using rep_fun [OF r(2) rb] .
    ultimately show "ra = rb" by simp
  next
    assume "ra = rb"
    then have "rep ?l ?a ra \<and> rep ?l ?b ra" using ra rb by simp
    then show "sameRoot ?l ?a ?b" unfolding sameRoot_def by (rule exI)
  qed
  show ?thesis
  proof (cases "ra = rb")
    case True
    have st: "kruskalStep e (mz, ds) = Some (mz, ds2)"
      unfolding kruskalStep_unfold using f1 f2 True by simp
    have k: "kInv W H (mz, ds2)"
      unfolding kInv_def
      using W H wf i2 len2 conn up cnt ec sameRoot_cong [OF r12] roots_cong [OF r12] by simp
    have ab: "(adjacent mz)\<^sup>*\<^sup>* ?a ?b"
      using conn [rule_format, of ?a ?b] ca cb same_ab True by simp
    show ?thesis
      apply (rule exI [of _ mz], rule exI [of _ ds2])
      using st k ab by simp
  next
    case False
    have a2: "0 \<le> ?a" "?a < int (length (parent ds2))" using a l1 l2 by simp_all
    have b2: "0 \<le> ?b" "?b < int (length (parent ds2))" using b1 l2 by simp_all
    from unite_rep [OF i2 a2 b2] obtain ds3 ra' rb' where
      u: "unite ds2 ?a ?b = Some ds3" and ra': "rep (parent ds2) ?a ra'"
      and rb': "rep (parent ds2) ?b rb'"
      and i3: "uf_inv (parent ds3)" and l3: "length (parent ds3) = length (parent ds2)"
      and diff: "ra' \<noteq> rb' \<longrightarrow>
                 (let big = (if sz ds2 ! nat ra' < sz ds2 ! nat rb' then rb' else ra');
                      small = (if sz ds2 ! nat ra' < sz ds2 ! nat rb' then ra' else rb')
                  in parent ds3 ! nat small = big
                     \<and> sz ds3 = (sz ds2)[nat big := sz ds2 ! nat big + sz ds2 ! nat small]
                     \<and> (\<forall>y t. rep (parent ds3) y t \<longleftrightarrow>
                           (\<exists>s. rep (parent ds2) y s \<and> t = (if s = small then big else s))))"
      by blast
    have "rep ?l ?a ra'" "rep ?l ?b rb'" using ra' rb' r12 by simp_all
    then have e1: "ra' = ra" "rb' = rb" using rep_fun [OF _ ra] rep_fun [OF _ rb] by simp_all
    define big where "big = (if sz ds2 ! nat ra < sz ds2 ! nat rb then rb else ra)"
    define small where "small = (if sz ds2 ! nat ra < sz ds2 ! nat rb then ra else rb)"
    have bs: "(big = ra \<and> small = rb) \<or> (big = rb \<and> small = ra)"
      unfolding big_def small_def by simp
    have r3: "\<forall>y t. rep (parent ds3) y t \<longleftrightarrow>
                (\<exists>s. rep ?l y s \<and> t = (if s = small then big else s))"
      using diff False r12 unfolding e1 big_def small_def Let_def by simp
    have rr: "rep ?l ra ra" "rep ?l rb rb"
      using rep_self_root [OF ra] rep_self_root [OF rb] by simp_all
    have rbs: "rep ?l big big" "rep ?l small small" "big \<noteq> small"
      using rr False unfolding big_def small_def by simp_all
    let ?mz = "removeWall mz e"
    have st: "kruskalStep e (mz, ds) = Some (?mz, ds3)"
      unfolding kruskalStep_unfold using f1 f2 False u by simp
    have adj: "adjacent ?mz = withEdge (adjacent mz) ?a ?b"
      using adjacent_removeWall [OF wf posW v] .
    have nr: "\<not> (adjacent mz)\<^sup>*\<^sup>* ?a ?b"
      using conn [rule_format, of ?a ?b] ca cb same_ab False by simp
    have na: "\<not> adjacent mz ?a ?b"
    proof
      assume "adjacent mz ?a ?b"
      then have "(adjacent mz)\<^sup>*\<^sup>* ?a ?b" by (rule r_into_rtranclp)
      then show False using nr by simp
    qed
    have sym: "symp (adjacent mz)" using adjacent_sym [OF posW] .
    have up': "uniquePaths (adjacent ?mz)"
      unfolding adj using uniquePaths_withEdge [OF sym up nr] .
    have conn': "\<forall>x y. isCell ?mz x \<and> isCell ?mz y \<longrightarrow>
               (sameRoot (parent ds3) x y \<longleftrightarrow> (adjacent ?mz)\<^sup>*\<^sup>* x y)"
    proof (intro allI impI)
      fix x y assume "isCell ?mz x \<and> isCell ?mz y"
      then have cx: "isCell mz x" and cy: "isCell mz y" by simp_all
      have x: "0 \<le> x" "x < int (length ?l)" and y: "0 \<le> y" "y < int (length ?l)"
        using cx cy rng by simp_all
      have "sameRoot (parent ds3) x y \<longleftrightarrow>
            sameRoot ?l x y \<or> (sameRoot ?l x ?a \<and> sameRoot ?l ?b y)
            \<or> (sameRoot ?l x ?b \<and> sameRoot ?l ?a y)"
        using sameRoot_link [OF ui ra rb False bs r3 x y] .
      also have "\<dots> \<longleftrightarrow> (adjacent mz)\<^sup>*\<^sup>* x y
            \<or> ((adjacent mz)\<^sup>*\<^sup>* x ?a \<and> (adjacent mz)\<^sup>*\<^sup>* ?b y)
            \<or> ((adjacent mz)\<^sup>*\<^sup>* x ?b \<and> (adjacent mz)\<^sup>*\<^sup>* ?a y)"
        using conn [rule_format, of x y] conn [rule_format, of x ?a] conn [rule_format, of ?b y]
          conn [rule_format, of x ?b] conn [rule_format, of ?a y] cx cy ca cb
        by simp
      also have "\<dots> \<longleftrightarrow> (adjacent ?mz)\<^sup>*\<^sup>* x y"
        unfolding adj using withEdge_reach [of "adjacent mz" ?a ?b x y] by simp
      finally show "sameRoot (parent ds3) x y \<longleftrightarrow> (adjacent ?mz)\<^sup>*\<^sup>* x y" .
    qed
    have rw: "removedWalls ?mz = Suc (removedWalls mz)"
      using removedWalls_removeWall [OF wf posW v na] .
    have "small \<in> roots ?l" using rbs(2) unfolding roots_def by simp
    then have "Suc (card (roots ?l - {small})) = card (roots ?l)"
      using card_Suc_Diff1 [OF roots_finite] by simp
    then have cr: "Suc (card (roots (parent ds3))) = card (roots ?l)"
      using roots_link [OF rbs r3] by simp
    have cnt': "removedWalls ?mz + card (roots (parent ds3)) = nat (W * H)"
      using rw cr cnt by simp
    have len3: "length (parent ds3) = nat (W * H)" using l3 len2 by simp
    have ec': "card (edgeSet ?mz) = removedWalls ?mz"
      using edgeSet_removeWall [OF wf posW v na] rw ec by simp
    have k: "kInv W H (?mz, ds3)"
      unfolding kInv_def using W H removeWall_wf [OF wf] i3 len3 conn' up' cnt' ec' by simp
    have "withEdge (adjacent mz) ?a ?b ?a ?b" by (simp add: withEdge_def)
    then have ab: "(adjacent ?mz)\<^sup>*\<^sup>* ?a ?b"
      unfolding adj by (rule r_into_rtranclp)
    have mono: "\<forall>x y. (adjacent mz)\<^sup>*\<^sup>* x y \<longrightarrow> (adjacent ?mz)\<^sup>*\<^sup>* x y"
      unfolding adj by (intro allI impI) (rule withEdge_mono)
    show ?thesis
      apply (rule exI [of _ ?mz], rule exI [of _ ds3])
      using st k ab mono by simp
  qed
qed

lemma kruskalLoop_inv:
  assumes pos: "0 < W"
  shows "kInv W H (mz, ds) \<Longrightarrow> \<forall>e \<in> set es. validEdge mz e \<Longrightarrow>
         \<exists>mz' ds'. kruskalLoop es (mz, ds) = Some (mz', ds') \<and> kInv W H (mz', ds')
           \<and> (\<forall>e \<in> set es. (adjacent mz')\<^sup>*\<^sup>* (edgeA mz e) (edgeB mz e))
           \<and> (\<forall>x y. (adjacent mz)\<^sup>*\<^sup>* x y \<longrightarrow> (adjacent mz')\<^sup>*\<^sup>* x y)"
proof (induction es arbitrary: mz ds)
  case Nil
  then show ?case by simp
next
  case (Cons e es)
  have v: "validEdge mz e" using Cons.prems(2) by simp
  from kruskalStep_inv [OF Cons.prems(1) pos v] obtain mz1 ds1 where
    s: "kruskalStep e (mz, ds) = Some (mz1, ds1)" and k1: "kInv W H (mz1, ds1)"
    and e1: "(adjacent mz1)\<^sup>*\<^sup>* (edgeA mz e) (edgeB mz e)"
    and m1: "\<forall>x y. (adjacent mz)\<^sup>*\<^sup>* x y \<longrightarrow> (adjacent mz1)\<^sup>*\<^sup>* x y"
    by blast
  have dims: "mazeW mz1 = mazeW mz" "mazeH mz1 = mazeH mz"
    using k1 Cons.prems(1) unfolding kInv_def by simp_all
  have same: "\<And>e. validEdge mz1 e = validEdge mz e" "\<And>e. edgeA mz1 e = edgeA mz e"
    "\<And>e. edgeB mz1 e = edgeB mz e"
    using dims by (auto simp: validEdge_def edgeA_def edgeB_def)
  have v1: "\<forall>e \<in> set es. validEdge mz1 e" using Cons.prems(2) same by simp
  from Cons.IH [OF k1 v1] obtain mz2 ds2 where
    l: "kruskalLoop es (mz1, ds1) = Some (mz2, ds2)" and k2: "kInv W H (mz2, ds2)"
    and e2: "\<forall>e \<in> set es. (adjacent mz2)\<^sup>*\<^sup>* (edgeA mz1 e) (edgeB mz1 e)"
    and m2: "\<forall>x y. (adjacent mz1)\<^sup>*\<^sup>* x y \<longrightarrow> (adjacent mz2)\<^sup>*\<^sup>* x y"
    by blast
  have "kruskalLoop (e # es) (mz, ds) = Some (mz2, ds2)" using s l by simp
  then have 1: "kruskalLoop (e # es) (mz, ds) = Some (mz2, ds2)" .
  have "(adjacent mz2)\<^sup>*\<^sup>* (edgeA mz e) (edgeB mz e)"
    using e1 m2 [rule_format, of "edgeA mz e" "edgeB mz e"] by simp
  then have 2: "\<forall>e' \<in> set (e # es). (adjacent mz2)\<^sup>*\<^sup>* (edgeA mz e') (edgeB mz e')"
    using e2 same by simp
  have 3: "\<forall>x y. (adjacent mz)\<^sup>*\<^sup>* x y \<longrightarrow> (adjacent mz2)\<^sup>*\<^sup>* x y"
  proof (intro allI impI)
    fix x y assume "(adjacent mz)\<^sup>*\<^sup>* x y"
    then have "(adjacent mz1)\<^sup>*\<^sup>* x y" using m1 [rule_format, of x y] by simp
    then show "(adjacent mz2)\<^sup>*\<^sup>* x y" using m2 [rule_format, of x y] by simp
  qed
  show ?case
    apply (rule exI [of _ mz2], rule exI [of _ ds2])
    using 1 k2 2 3 by simp
qed

lemma empty_reach:
  assumes "\<forall>x y. \<not> R x y"
  shows "R\<^sup>*\<^sup>* a b \<longleftrightarrow> a = b"
proof
  assume "R\<^sup>*\<^sup>* a b"
  then show "a = b" using assms by (induction rule: rtranclp_induct) simp_all
next
  assume "a = b"
  then show "R\<^sup>*\<^sup>* a b" by simp
qed

lemma empty_uniquePaths:
  assumes "\<forall>x y. \<not> R x y"
  shows "uniquePaths R"
  unfolding uniquePaths_def
proof (intro allI impI)
  fix a b p q assume h: "sp R a b p \<and> sp R a b q"
  have one: "\<And>p. sp R a b p \<Longrightarrow> p = [a]"
  proof -
    fix p assume p: "sp R a b p"
    show "p = [a]"
    proof (cases p)
      case Nil
      then show ?thesis using p unfolding sp_def by simp
    next
      case (Cons x r)
      show ?thesis
      proof (cases r)
        case Nil
        then show ?thesis using p Cons unfolding sp_def by simp
      next
        case c: (Cons y r')
        have "successively R p" using p unfolding sp_def by simp
        then have "successively R (x # y # r')" unfolding Cons c .
        then have "R x y" by simp
        then show ?thesis using assms by simp
      qed
    qed
  qed
  have "p = [a]" "q = [a]" using one [of p] one [of q] h by simp_all
  then show "p = q" by simp
qed

lemma filter_Not_walls: "filter Not (concat (replicate n (replicate m True))) = []"
  by (induction n) simp_all

text \<open>The state before the first edge is processed.\<close>

lemma kInv_init:
  assumes pos: "0 < W" "0 < H"
  shows "kInv W H (\<lparr>mazeW = W, mazeH = H,
                hasRightWall = replicate (nat W) (replicate (nat H) True),
                hasDownWall = replicate (nat W) (replicate (nat H) True)\<rparr>,
              DisjointSet_ctor (W * H))"
proof -
  let ?mz = "\<lparr>mazeW = W, mazeH = H,
                hasRightWall = replicate (nat W) (replicate (nat H) True),
                hasDownWall = replicate (nat W) (replicate (nat H) True)\<rparr>"
  let ?ds = "DisjointSet_ctor (W * H)"
  have N: "0 \<le> W * H" using pos by simp
  have wf: "wfMaze ?mz" by (simp add: wfMaze_def)
  have posW: "0 < mazeW ?mz" using pos by simp
  have nr: "\<And>x y. 0 \<le> x \<Longrightarrow> x < W \<Longrightarrow> 0 \<le> y \<Longrightarrow> y < H
             \<Longrightarrow> hasRightWall ?mz ! nat x ! nat y \<and> hasDownWall ?mz ! nat x ! nat y"
    by simp
  have no: "\<And>a. \<not> openRight ?mz a" "\<And>a. \<not> openDown ?mz a"
  proof -
    fix a
    show "\<not> openRight ?mz a"
    proof
      assume o: "openRight ?mz a"
      then have c: "isCell ?mz a" unfolding openRight_def by simp
      have g: "0 \<le> fst (cellPt a W)" "fst (cellPt a W) < W" "0 \<le> snd (cellPt a W)"
        "snd (cellPt a W) < H"
        using cellPt_inGrid [OF posW c] by simp_all
      show False using o nr [OF g] unfolding openRight_def by simp
    qed
    show "\<not> openDown ?mz a"
    proof
      assume o: "openDown ?mz a"
      then have c: "isCell ?mz a" unfolding openDown_def by simp
      have g: "0 \<le> fst (cellPt a W)" "fst (cellPt a W) < W" "0 \<le> snd (cellPt a W)"
        "snd (cellPt a W) < H"
        using cellPt_inGrid [OF posW c] by simp_all
      show False using o nr [OF g] unfolding openDown_def by simp
    qed
  qed
  have na: "\<forall>x y. \<not> adjacent ?mz x y" using adjacent_alt [OF posW] no by simp
  have up: "uniquePaths (adjacent ?mz)" using empty_uniquePaths [OF na] .
  have rch: "\<And>a b. (adjacent ?mz)\<^sup>*\<^sup>* a b \<longleftrightarrow> a = b" using empty_reach [OF na] .
  have ui: "uf_inv (parent ?ds)" using ctor_wf [OF N] unfolding uf_wf_def by simp
  have len: "length (parent ?ds) = nat (W * H)" using ctor_length [OF N] .
  have sr: "\<forall>a b. isCell ?mz a \<and> isCell ?mz b \<longrightarrow>
               (sameRoot (parent ?ds) a b \<longleftrightarrow> (adjacent ?mz)\<^sup>*\<^sup>* a b)"
    unfolding rch sameRoot_def ctor_rep [OF N] by (auto simp: isCell_def)
  have "roots (parent ?ds) = {0..<W * H}"
    unfolding roots_def ctor_rep [OF N] by auto
  then have cr: "card (roots (parent ?ds)) = nat (W * H)" by simp
  have rw: "removedWalls ?mz = 0" by (simp add: removedWalls_def filter_Not_walls)
  have "edgeSet ?mz = {}" unfolding edgeSet_def using na by simp
  then have ec: "card (edgeSet ?mz) = 0" by simp
  show ?thesis unfolding kInv_def using wf ui len sr up cr rw ec by simp
qed

text \<open>Every cell is joined to cell 0 once every candidate edge has its ends joined.\<close>

lemma grid_connected:
  assumes pos: "0 < mazeW mz"
    and all: "\<forall>e. validEdge mz e \<longrightarrow> (adjacent mz)\<^sup>*\<^sup>* (edgeA mz e) (edgeB mz e)"
  shows "isCell mz c \<Longrightarrow> (adjacent mz)\<^sup>*\<^sup>* 0 c"
proof (induction "nat c" arbitrary: c rule: less_induct)
  case less
  from cell_coords [OF pos less.prems] obtain x y where
    c: "c = cellId x y (mazeW mz)" and g: "0 \<le> x" "x < mazeW mz" "0 \<le> y" "y < mazeH mz"
    by blast
  show ?case
  proof (cases "0 < x")
    case True
    let ?e = "(x - 1, y, 1 :: int)"
    have v: "validEdge mz ?e" using g True by (simp add: validEdge_def)
    have a: "edgeA mz ?e = c - 1" "edgeB mz ?e = c"
      unfolding c by (simp_all add: edgeA_def edgeB_def cellId_def)
    have e: "(adjacent mz)\<^sup>*\<^sup>* (c - 1) c" using all v a by metis
    have c1: "isCell mz (c - 1)" using validEdge_cells(1) [OF v] a by simp
    then have "nat (c - 1) < nat c" by (simp add: isCell_def)
    then have "(adjacent mz)\<^sup>*\<^sup>* 0 (c - 1)" using less.hyps c1 by blast
    then show ?thesis using e by (rule rtranclp_trans)
  next
    case False
    then have x0: "x = 0" using g by simp
    show ?thesis
    proof (cases "0 < y")
      case True
      let ?e = "(0 :: int, y - 1, 2 :: int)"
      have v: "validEdge mz ?e" using g True pos by (simp add: validEdge_def)
      have a: "edgeA mz ?e = c - mazeW mz" "edgeB mz ?e = c"
        unfolding c x0 by (simp_all add: edgeA_def edgeB_def cellId_def algebra_simps)
      have e: "(adjacent mz)\<^sup>*\<^sup>* (c - mazeW mz) c" using all v a by metis
      have c1: "isCell mz (c - mazeW mz)" using validEdge_cells(1) [OF v] a by simp
      then have "nat (c - mazeW mz) < nat c" using pos by (simp add: isCell_def)
      then have "(adjacent mz)\<^sup>*\<^sup>* 0 (c - mazeW mz)" using less.hyps c1 by blast
      then show ?thesis using e by (rule rtranclp_trans)
    next
      case False
      then have "c = 0" using c x0 g by (simp add: cellId_def)
      then show ?thesis by simp
    qed
  qed
qed

text \<open>What the generator returns, for any outcome of the shuffle.\<close>

lemma generateMaze_tree:
  assumes pos: "0 < W" "0 < H" and perm: "\<forall>s es. mset (shuffle s es) = mset es"
  shows "\<exists>mz. generateMaze shuffle now W H = Some mz \<and> mazeW mz = W \<and> mazeH mz = H
           \<and> wfMaze mz \<and> connectedMaze mz \<and> uniquePaths (adjacent mz)
           \<and> Suc (removedWalls mz) = nat (W * H)
           \<and> card (edgeSet mz) = removedWalls mz"
proof -
  let ?mz0 = "Maze_ctor W H"
  let ?ds0 = "DisjointSet_ctor (W * H)"
  let ?es = "shuffle (now mod 4294967296) (candidateEdges W H)"
  have d0: "mazeW ?mz0 = W" "mazeH ?mz0 = H" by (simp_all add: Maze_ctor_def)
  have k0: "kInv W H (?mz0, ?ds0)" unfolding Maze_ctor_def using kInv_init [OF pos] .
  have "mset ?es = mset (candidateEdges W H)" using perm by simp
  then have se: "set ?es = set (candidateEdges W H)" by (rule mset_eq_setD)
  have v0: "\<And>e. e \<in> set ?es \<longleftrightarrow> validEdge ?mz0 e"
    unfolding se using candidateEdges_set [of _ ?mz0] d0 by simp
  then have "\<forall>e \<in> set ?es. validEdge ?mz0 e" by simp
  from kruskalLoop_inv [OF pos(1) k0 this] obtain mz ds where
    l: "kruskalLoop ?es (?mz0, ?ds0) = Some (mz, ds)" and k: "kInv W H (mz, ds)"
    and ed: "\<forall>e \<in> set ?es. (adjacent mz)\<^sup>*\<^sup>* (edgeA ?mz0 e) (edgeB ?mz0 e)"
    by blast
  have g: "generateMaze shuffle now W H = Some mz"
    unfolding generateMaze_def generateRandom_def Let_def d0 using l by simp
  have W: "mazeW mz = W" and H: "mazeH mz = H" and wf: "wfMaze mz"
    and ui: "uf_inv (parent ds)" and len: "length (parent ds) = nat (W * H)"
    and conn: "\<forall>a b. isCell mz a \<and> isCell mz b \<longrightarrow>
               (sameRoot (parent ds) a b \<longleftrightarrow> (adjacent mz)\<^sup>*\<^sup>* a b)"
    and up: "uniquePaths (adjacent mz)"
    and cnt: "removedWalls mz + card (roots (parent ds)) = nat (W * H)"
    and ec: "card (edgeSet mz) = removedWalls mz"
    using k unfolding kInv_def by auto
  have same: "\<And>e. validEdge mz e = validEdge ?mz0 e" "\<And>e. edgeA mz e = edgeA ?mz0 e"
    "\<And>e. edgeB mz e = edgeB ?mz0 e"
    using W H d0 by (auto simp: validEdge_def edgeA_def edgeB_def)
  have all: "\<forall>e. validEdge mz e \<longrightarrow> (adjacent mz)\<^sup>*\<^sup>* (edgeA mz e) (edgeB mz e)"
    using ed v0 same by simp
  have posW: "0 < mazeW mz" using pos W by simp
  have reach: "\<And>c. isCell mz c \<Longrightarrow> (adjacent mz)\<^sup>*\<^sup>* 0 c"
    using grid_connected [OF posW all] .
  have cm: "connectedMaze mz" unfolding connectedMaze_def using reach by simp
  have z: "isCell mz 0" using pos W H by (simp add: isCell_def)
  have "0 < W * H" using pos by simp
  then have "0 \<le> (0::int) \<and> (0::int) < int (length (parent ds))"
    unfolding len by simp
  then obtain r0 where r0: "rep (parent ds) 0 r0" using ui unfolding uf_inv_def by blast
  have "roots (parent ds) = {r0}"
  proof (rule set_eqI)
    fix r
    show "r \<in> roots (parent ds) \<longleftrightarrow> r \<in> {r0}"
    proof
      assume "r \<in> roots (parent ds)"
      then have rr: "rep (parent ds) r r" unfolding roots_def by simp
      have "0 \<le> r \<and> r < int (length (parent ds))" using rep_range [OF rr] .
      moreover have "0 \<le> W * H" using pos by simp
      ultimately have cr: "isCell mz r" unfolding isCell_def len W H by simp
      have "sameRoot (parent ds) 0 r"
        using conn [rule_format, of 0 r] z cr reach [OF cr] by simp
      then obtain t where t: "rep (parent ds) 0 t" "rep (parent ds) r t"
        unfolding sameRoot_def by blast
      have "t = r0" using rep_fun [OF t(1) r0] .
      moreover have "t = r" using rep_fun [OF t(2) rr] .
      ultimately show "r \<in> {r0}" by simp
    next
      assume "r \<in> {r0}"
      then show "r \<in> roots (parent ds)"
        unfolding roots_def using rep_self_root [OF r0] by simp
    qed
  qed
  then have "card (roots (parent ds)) = 1" by simp
  then have c: "Suc (removedWalls mz) = nat (W * H)" using cnt by simp
  show ?thesis
    apply (rule exI [of _ mz])
    using g W H wf cm up c ec by simp
qed

text \<open>
  C1. For every width \<open>W > 0\<close> and height \<open>H > 0\<close> (with \<open>W * H\<close>, which the program computes
  as an \<open>int\<close>, at most \<open>INT_MAX\<close>), whatever permutation the shuffle returns, generation yields a maze of these dimensions whose grids have the declared sizes
  and in which: two cells are adjacent exactly when the wall between them is removed; any two
  cells are connected; there is no cycle; exactly \<open>W * H - 1\<close> walls are removed and the graph
  has exactly \<open>W * H - 1\<close> edges; and any two cells are joined by exactly one simple path.
\<close>

theorem generateMaze_spanning_tree:
  assumes "0 < W" "0 < H" and "W * H \<le> INT_MAX"
    and "\<forall>s es. mset (shuffle s es) = mset es"
  shows "\<exists>mz. generateMaze shuffle now W H = Some mz \<and> mazeW mz = W \<and> mazeH mz = H
           \<and> wfMaze mz
           \<and> (\<forall>u v. adjacent mz u v \<longleftrightarrow>
                  (openRight mz u \<and> v = u + 1) \<or> (openDown mz u \<and> v = u + W)
                \<or> (openRight mz v \<and> u = v + 1) \<or> (openDown mz v \<and> u = v + W))
           \<and> (\<forall>a b. isCell mz a \<and> isCell mz b \<longrightarrow> (adjacent mz)\<^sup>*\<^sup>* a b)
           \<and> acyclicMaze mz
           \<and> int (removedWalls mz) = W * H - 1
           \<and> int (card (edgeSet mz)) = W * H - 1
           \<and> (\<forall>a b. isCell mz a \<and> isCell mz b \<longrightarrow> (\<exists>!p. simplePath mz a b p))"
proof -
  from generateMaze_tree [OF assms(1,2,4), of now] obtain mz where
    g: "generateMaze shuffle now W H = Some mz" and W: "mazeW mz = W" and H: "mazeH mz = H"
    and wf: "wfMaze mz" and cm: "connectedMaze mz" and up: "uniquePaths (adjacent mz)"
    and c: "Suc (removedWalls mz) = nat (W * H)"
    and ec: "card (edgeSet mz) = removedWalls mz"
    by (elim exE conjE)
  have p: "0 < mazeW mz" using assms(1) W by simp
  have alt: "\<forall>u v. adjacent mz u v \<longleftrightarrow>
                  (openRight mz u \<and> v = u + 1) \<or> (openDown mz u \<and> v = u + W)
                \<or> (openRight mz v \<and> u = v + 1) \<or> (openDown mz v \<and> u = v + W)"
    using adjacent_alt [OF p] unfolding W by simp
  have conn: "\<forall>a b. isCell mz a \<and> isCell mz b \<longrightarrow> (adjacent mz)\<^sup>*\<^sup>* a b"
  proof (intro allI impI)
    fix a b assume ab: "isCell mz a \<and> isCell mz b"
    have r: "\<forall>v. isCell mz v \<longrightarrow> (adjacent mz)\<^sup>*\<^sup>* 0 v"
      using cm unfolding connectedMaze_def .
    have ra: "(adjacent mz)\<^sup>*\<^sup>* 0 a" using r ab by simp
    have rb: "(adjacent mz)\<^sup>*\<^sup>* 0 b" using r ab by simp
    have "(adjacent mz)\<^sup>*\<^sup>* a 0" using rtranclp_sym [OF adjacent_sym [OF p] ra] .
    then show "(adjacent mz)\<^sup>*\<^sup>* a b" using rb by (rule rtranclp_trans)
  qed
  have ac: "acyclicMaze mz" using uniquePaths_acyclic [OF p up] .
  have "0 < W * H" using assms(1,2) by simp
  then have n: "int (removedWalls mz) = W * H - 1" using c by linarith
  have n': "int (card (edgeSet mz)) = W * H - 1" using n ec by simp
  have u: "\<forall>a b. isCell mz a \<and> isCell mz b \<longrightarrow> (\<exists>!p. simplePath mz a b p)"
    using tree_unique_path [OF p cm up] by simp
  show ?thesis
    apply (rule exI [of _ mz])
    apply (intro conjI)
            apply (rule g)
           apply (rule W)
          apply (rule H)
         apply (rule wf)
        apply (rule alt)
       apply (rule conn)
      apply (rule ac)
      apply (rule n)
     apply (rule n')
    apply (rule u)
    done
qed

theorem generateMaze_spanning_tree_witness:
  "\<exists>mz. generateMaze exampleShuffle 7 2 2 = Some mz \<and> mazeW mz = 2 \<and> mazeH mz = 2
           \<and> wfMaze mz
           \<and> (\<forall>u v. adjacent mz u v \<longleftrightarrow>
                  (openRight mz u \<and> v = u + 1) \<or> (openDown mz u \<and> v = u + 2)
                \<or> (openRight mz v \<and> u = v + 1) \<or> (openDown mz v \<and> u = v + 2))
           \<and> (\<forall>a b. isCell mz a \<and> isCell mz b \<longrightarrow> (adjacent mz)\<^sup>*\<^sup>* a b)
           \<and> acyclicMaze mz
           \<and> int (removedWalls mz) = 2 * 2 - 1
           \<and> int (card (edgeSet mz)) = 2 * 2 - 1
           \<and> (\<forall>a b. isCell mz a \<and> isCell mz b \<longrightarrow> (\<exists>!p. simplePath mz a b p))"
  by (rule generateMaze_spanning_tree) (simp_all add: exampleShuffle_def INT_MAX_def)

section \<open>Searches on a generated maze\<close>

text \<open>What the four searches return on a generated maze.\<close>

lemma generated_runs:
  assumes pos: "0 < W" "0 < H" and fits: "W * H + W + H \<le> INT_MAX"
    and perm: "\<forall>s es. mset (shuffle s es) = mset es"
  shows "\<exists>mz pd pb pj pa. generateMaze shuffle now W H = Some mz
           \<and> 0 < mazeW mz \<and> uniquePaths (adjacent mz)
           \<and> runDFS mz = Some pd \<and> runBFS mz = Some pb
           \<and> runDijkstra mz skipD = Some pj \<and> runAStar mz skipA = Some pa
           \<and> simplePath mz 0 (goalCell mz) (rev pd) \<and> simplePath mz 0 (goalCell mz) (rev pb)
           \<and> simplePath mz 0 (goalCell mz) (rev pj) \<and> simplePath mz 0 (goalCell mz) (rev pa)"
proof -
  from generateMaze_tree [OF pos perm, of now] obtain mz where
    g: "generateMaze shuffle now W H = Some mz" and W: "mazeW mz = W" and H: "mazeH mz = H"
    and cm: "connectedMaze mz" and up: "uniquePaths (adjacent mz)"
    by (elim exE conjE)
  have p: "0 < mazeW mz" "0 < mazeH mz" using pos W H by simp_all
  have f: "mazeW mz * mazeH mz \<le> INT_MAX" using fits pos W H by simp
  from runDFS_path [OF p cm] obtain pd where
    pd: "runDFS mz = Some pd" "simplePath mz 0 (goalCell mz) (rev pd)" by (elim exE conjE)
  from runBFS_path [OF p cm] obtain pb where
    pb: "runBFS mz = Some pb" "simplePath mz 0 (goalCell mz) (rev pb)" by (elim exE conjE)
  from runPQ_path [OF p cm f, of zeroH skipD] obtain pj where
    pj: "runDijkstra mz skipD = Some pj" "simplePath mz 0 (goalCell mz) (rev pj)"
    unfolding runDijkstra_def by (elim exE conjE)
  from runPQ_path [OF p cm f, of "manH (mazeW mz) (mazeH mz)" skipA] obtain pa where
    pa: "runAStar mz skipA = Some pa" "simplePath mz 0 (goalCell mz) (rev pa)"
    unfolding runAStar_def by (elim exE conjE)
  show ?thesis
    apply (rule exI [of _ mz], rule exI [of _ pd], rule exI [of _ pb], rule exI [of _ pj],
        rule exI [of _ pa])
    using g p(1) up pd pb pj pa by simp
qed


text \<open>
  C7. \<open>drawFinalPath\<close> stars the cells from the goal back along \<open>parentOf\<close>, so a run returns
  them goal first; read from the start, the path is the reverse. For every generated maze and
  each of the four searches, that path is a simple path from the start cell 0 to the goal
  cell: it begins at the start, ends at the goal, repeats no cell, and each cell is followed
  by one that \<open>canMove\<close> allows to step to. The bound keeps every cell index, distance and
  queue key inside \<open>int\<close>.
\<close>

theorem search_paths_simple:
  assumes "0 < W" "0 < H" and "W * H + W + H \<le> INT_MAX"
    and "\<forall>s es. mset (shuffle s es) = mset es"
  shows "\<exists>mz pd pb pj pa. generateMaze shuffle now W H = Some mz
           \<and> runDFS mz = Some pd \<and> runBFS mz = Some pb
           \<and> runDijkstra mz skipD = Some pj \<and> runAStar mz skipA = Some pa
           \<and> simplePath mz 0 (goalCell mz) (rev pd) \<and> simplePath mz 0 (goalCell mz) (rev pb)
           \<and> simplePath mz 0 (goalCell mz) (rev pj) \<and> simplePath mz 0 (goalCell mz) (rev pa)"
proof -
  from generated_runs [OF assms, of now skipD skipA] obtain mz pd pb pj pa where
    f: "generateMaze shuffle now W H = Some mz"
    "runDFS mz = Some pd" "runBFS mz = Some pb"
    "runDijkstra mz skipD = Some pj" "runAStar mz skipA = Some pa"
    "simplePath mz 0 (goalCell mz) (rev pd)" "simplePath mz 0 (goalCell mz) (rev pb)"
    "simplePath mz 0 (goalCell mz) (rev pj)" "simplePath mz 0 (goalCell mz) (rev pa)"
    by (elim exE conjE)
  show ?thesis
    apply (rule exI [of _ mz], rule exI [of _ pd], rule exI [of _ pb], rule exI [of _ pj],
        rule exI [of _ pa])
    using f by simp
qed

theorem search_paths_simple_witness:
  "\<exists>mz pd pb pj pa. generateMaze exampleShuffle 7 3 2 = Some mz
           \<and> runDFS mz = Some pd \<and> runBFS mz = Some pb
           \<and> runDijkstra mz True = Some pj \<and> runAStar mz False = Some pa
           \<and> simplePath mz 0 (goalCell mz) (rev pd) \<and> simplePath mz 0 (goalCell mz) (rev pb)
           \<and> simplePath mz 0 (goalCell mz) (rev pj) \<and> simplePath mz 0 (goalCell mz) (rev pa)"
  by (rule search_paths_simple) (simp_all add: exampleShuffle_def INT_MAX_def)



end
